theory Spec2Isabelle
  imports Main "HOL-Library.Word" "HOL-Library.Char_ord" "HOL-Library.List_Lexorder"
    "HOL-Library.Product_Lexorder" "HOL-Library.AList"
begin

section \<open>Strings and the platform's URI functions\<close>

text \<open>
  A JavaScript string is modelled by its UTF-8 encoding: a \<^typ>\<open>string\<close> whose
  characters are the bytes. So \<open>TextEncoder.encode\<close> is the identity on the
  representation, \<open>split\<close> and \<open>join\<close> on ASCII separators work bytewise, and a
  string with an unpaired surrogate (on which \<open>encodeURIComponent\<close> throws) has no
  representation. Not every \<^typ>\<open>string\<close> is the image of a JavaScript string:
  \<open>utf8_ok\<close> below says which are.
\<close>

type_synonym bytes = "8 word list"

definition byte_of :: "char \<Rightarrow> nat" where
  "byte_of c = of_char c"

fun join :: "string \<Rightarrow> string list \<Rightarrow> string" where
  "join sep [] = []"
| "join sep [x] = x"
| "join sep (x # y # ys) = x @ sep @ join sep (y # ys)"

text \<open>\<open>s.split(d)\<close> for a one-character separator: never the empty array.\<close>

fun split :: "char \<Rightarrow> string \<Rightarrow> string list" where
  "split d [] = [[]]"
| "split d (c # cs) =
     (if c = d then [] # split d cs
      else (case split d cs of [] \<Rightarrow> [[c]] | y # ys \<Rightarrow> (c # y) # ys))"

text \<open>
  ECMA-262 \<open>Encode\<close> with the unescaped set of \<open>encodeURIComponent\<close>: ASCII letters,
  digits and the marks \<open>- _ . ! ~ * ' ( )\<close> stay; every other code point is written as
  the \<open>%XX\<close> of each octet of its UTF-8 form, in upper-case hexadecimal.
\<close>

definition uriUnescaped :: "char \<Rightarrow> bool" where
  "uriUnescaped c =
     (let n = byte_of c in
      (65 \<le> n \<and> n \<le> 90) \<or> (97 \<le> n \<and> n \<le> 122) \<or> (48 \<le> n \<and> n \<le> 57) \<or>
      c \<in> set ''-_.!~*'' \<or> n = 39 \<or> c \<in> set ''()'')"

definition hexDigit :: "nat \<Rightarrow> char" where
  "hexDigit d = ''0123456789ABCDEF'' ! d"

definition hexOctet :: "nat \<Rightarrow> string" where
  "hexOctet b = [hexDigit (b div 16), hexDigit (b mod 16)]"

definition encodeChar :: "char \<Rightarrow> string" where
  "encodeChar c = (if uriUnescaped c then [c] else CHR ''%'' # hexOctet (byte_of c))"

definition encodeURIComponent :: "string \<Rightarrow> string" where
  "encodeURIComponent s = concat (map encodeChar s)"

text \<open>
  ECMA-262 \<open>Decode\<close> with the empty preserved set (\<open>decodeURIComponent\<close>). \<open>None\<close> is
  the \<open>URIError\<close>. An escape \<open>%XX\<close> whose octet has \<open>n\<close> leading one bits stands alone
  when \<open>n = 0\<close>, is an error when \<open>n = 1\<close> or \<open>n > 4\<close>, and otherwise must be followed
  by \<open>n - 1\<close> more escapes, the octets together being the UTF-8 form of one code point.
\<close>

definition hexVal :: "char \<Rightarrow> nat option" where
  "hexVal c =
     (let n = byte_of c in
      if 48 \<le> n \<and> n \<le> 57 then Some (n - 48)
      else if 65 \<le> n \<and> n \<le> 70 then Some (n - 55)
      else if 97 \<le> n \<and> n \<le> 102 then Some (n - 87)
      else None)"

definition parseHexOctet :: "char \<Rightarrow> char \<Rightarrow> nat option" where
  "parseHexOctet h l =
     (case (hexVal h, hexVal l) of (Some a, Some b) \<Rightarrow> Some (16 * a + b) | _ \<Rightarrow> None)"

definition leadingOnes :: "nat \<Rightarrow> nat" where
  "leadingOnes b =
     (if b < 128 then 0 else if b < 192 then 1 else if b < 224 then 2
      else if b < 240 then 3 else if b < 248 then 4 else 5)"

definition isCont :: "nat \<Rightarrow> bool" where
  "isCont b = (128 \<le> b \<and> b \<le> 191)"

text \<open>The well-formed UTF-8 byte sequences of one code point (Unicode, table 3-7).\<close>

fun utf8CodePoint :: "nat list \<Rightarrow> bool" where
  "utf8CodePoint [a] = (a < 128)"
| "utf8CodePoint [a, b] = (194 \<le> a \<and> a \<le> 223 \<and> isCont b)"
| "utf8CodePoint [a, b, c] =
     ((a = 224 \<and> 160 \<le> b \<and> b \<le> 191 \<and> isCont c) \<or>
      (225 \<le> a \<and> a \<le> 236 \<and> isCont b \<and> isCont c) \<or>
      (a = 237 \<and> 128 \<le> b \<and> b \<le> 159 \<and> isCont c) \<or>
      (238 \<le> a \<and> a \<le> 239 \<and> isCont b \<and> isCont c))"
| "utf8CodePoint [a, b, c, d] =
     ((a = 240 \<and> 144 \<le> b \<and> b \<le> 191 \<and> isCont c \<and> isCont d) \<or>
      (241 \<le> a \<and> a \<le> 243 \<and> isCont b \<and> isCont c \<and> isCont d) \<or>
      (a = 244 \<and> 128 \<le> b \<and> b \<le> 143 \<and> isCont c \<and> isCont d))"
| "utf8CodePoint _ = False"

text \<open>Reads \<open>k\<close> escapes \<open>%XX\<close> from the front: their octets and the rest.\<close>

fun takeEscapes :: "nat \<Rightarrow> string \<Rightarrow> (nat list \<times> string) option" where
  "takeEscapes 0 s = Some ([], s)"
| "takeEscapes (Suc k) (p # h # l # rest) =
     (if p \<noteq> CHR ''%'' then None
      else (case parseHexOctet h l of
              None \<Rightarrow> None
            | Some b \<Rightarrow>
                (case takeEscapes k rest of
                   None \<Rightarrow> None
                 | Some (bs, r) \<Rightarrow> Some (b # bs, r))))"
| "takeEscapes (Suc k) _ = None"

lemma takeEscapes_length:
  "takeEscapes k s = Some (bs, r) \<Longrightarrow> length r \<le> length s"
proof (induction k s arbitrary: bs r rule: takeEscapes.induct)
  case (2 k p h l rest)
  then show ?case
    by (fastforce split: if_splits option.splits)
qed auto

function decodeURIComponent :: "string \<Rightarrow> string option" where
  "decodeURIComponent [] = Some []"
| "decodeURIComponent (c # cs) =
     (if c \<noteq> CHR ''%'' then map_option ((#) c) (decodeURIComponent cs)
      else (case cs of
              h # l # rest \<Rightarrow>
                (case parseHexOctet h l of
                   None \<Rightarrow> None
                 | Some b \<Rightarrow>
                     (let n = leadingOnes b in
                      if n = 0 then map_option ((#) (char_of b)) (decodeURIComponent rest)
                      else if n = 1 \<or> n > 4 then None
                      else (case takeEscapes (n - 1) rest of
                              None \<Rightarrow> None
                            | Some (bs, r) \<Rightarrow>
                                if utf8CodePoint (b # bs)
                                then map_option ((@) (map char_of (b # bs))) (decodeURIComponent r)
                                else None)))
            | _ \<Rightarrow> None))"
  by pat_completeness auto
termination
proof (relation "measure length", goal_cases)
  case 1
  show ?case by simp
next
  case (2 c cs)
  then show ?case by simp
next
  case (3 c cs h ts l rest b n)
  then show ?case by simp
next
  case (4 c cs h ts l rest b n x bs r)
  then show ?case
    using takeEscapes_length [of "n - 1" rest bs r] by simp
qed

text \<open>
  The strings that stand for a JavaScript string: a sequence of code points, each in its
  well-formed UTF-8 byte sequence.
\<close>

fun utf8_ok :: "string \<Rightarrow> bool" where
  "utf8_ok [] = True"
| "utf8_ok (a # s) =
     (let n = leadingOnes (byte_of a) in
      if n = 0 then utf8_ok s
      else if n = 2 then
        (case s of b # r \<Rightarrow> utf8CodePoint [byte_of a, byte_of b] \<and> utf8_ok r | _ \<Rightarrow> False)
      else if n = 3 then
        (case s of b # c # r \<Rightarrow>
           utf8CodePoint [byte_of a, byte_of b, byte_of c] \<and> utf8_ok r | _ \<Rightarrow> False)
      else if n = 4 then
        (case s of b # c # d # r \<Rightarrow>
           utf8CodePoint [byte_of a, byte_of b, byte_of c, byte_of d] \<and> utf8_ok r | _ \<Rightarrow> False)
      else False)"

definition wellFormedPath :: "string list \<Rightarrow> bool" where
  "wellFormedPath p = list_all utf8_ok p"

section \<open>The path codec\<close>

text \<open>
  \<open>pathToURIComponent\<close> (mod.ts 162-168) and \<open>URIComponentToPath\<close> (mod.ts 169-176).
  The codec of a path is total on the strings modelled here; the inverse fails when
  one of the pieces is not a well-formed escape sequence.
\<close>

definition pathToURIComponent :: "string list \<Rightarrow> string" where
  "pathToURIComponent path = join ''/'' (map encodeURIComponent path)"

fun those_all :: "'a option list \<Rightarrow> 'a list option" where
  "those_all [] = Some []"
| "those_all (None # _) = None"
| "those_all (Some x # xs) = map_option ((#) x) (those_all xs)"

definition URIComponentToPath :: "string \<Rightarrow> string list option" where
  "URIComponentToPath uri = those_all (map decodeURIComponent (split CHR ''/'' uri))"

section \<open>The data model\<close>

text \<open>
  The constants of the class (mod.ts 74-76) and \<open>Number.MAX_SAFE_INTEGER\<close>. Byte counts,
  chunk indices, rates and caps are natural numbers; readings of the wall clock are
  integers.
\<close>

definition chunkSize :: nat where
  "chunkSize = 65536"

definition maxPageSize :: nat where
  "maxPageSize = 1000"

definition oneSecondDelayMillis :: int where
  "oneSecondDelayMillis = 1000"

definition MAX_SAFE_INTEGER :: nat where
  "MAX_SAFE_INTEGER = 9007199254740991"

text \<open>A number inside a template literal: its decimal digits.\<close>

fun natToString :: "nat \<Rightarrow> string" where
  "natToString n =
     (if n < 10 then [hexDigit n] else natToString (n div 10) @ [hexDigit (n mod 10)])"

definition intToString :: "int \<Rightarrow> string" where
  "intToString i = (if i < 0 then CHR ''-'' # natToString (nat (- i)) else natToString (nat i))"

text \<open>
  \<open>clientId?: string | number\<close>. The client counters live in a JavaScript object, whose
  properties are named by strings: a number names the property of \<open>String(n)\<close>, an absent
  id the property \<open>undefined\<close>. \<open>NumClientId n\<close> is the number \<open>n\<close>, for an integer \<open>n\<close> that is
  a number and of a magnitude below \<open>10^21\<close>: its name is its decimal digits, which is
  \<open>String(n)\<close> there. The numbers from \<open>10^21\<close> on, whose names are in exponent form, and
  the numbers with a fraction are not in the model. An id counts as given when it is
  truthy.
\<close>

datatype clientId = NoClientId | NumClientId int | StrClientId string

fun truthy :: "clientId \<Rightarrow> bool" where
  "truthy NoClientId = False"
| "truthy (NumClientId n) = (n \<noteq> 0)"
| "truthy (StrClientId x) = (x \<noteq> [])"

fun propertyKey :: "clientId \<Rightarrow> string" where
  "propertyKey NoClientId = ''undefined''"
| "propertyKey (NumClientId n) = intToString n"
| "propertyKey (StrClientId x) = x"

text \<open>
  The three dictionaries of the engine (mod.ts 85-87) are plain objects, \<open>{}\<close>: reading a
  property, \<open>in\<close> and \<open>++\<close> see the members of \<open>Object.prototype\<close> under the names the
  object has no property of its own for. A dictionary is what reading its properties
  gives, \<open>None\<close> being \<open>undefined\<close>. A property holds a number, which is a count or \<open>NaN\<close>,
  or a value that is no number: an inherited member (a function), or the text that \<open>+=\<close>
  makes of one. The engine stores numbers only, so a value that is no number is never a
  property of the object's own.
\<close>

datatype jsValue = Num nat | NaN | NoNumber

type_synonym dictionary = "string \<rightharpoonup> jsValue"

text \<open>
  The names of the members of \<open>Object.prototype\<close> on the platform, Deno, which removes the
  accessor \<open>__proto__\<close> from it.
\<close>

definition objectPrototypeNames :: "string list" where
  "objectPrototypeNames =
     [''constructor'', ''__defineGetter__'', ''__defineSetter__'', ''hasOwnProperty'',
      ''__lookupGetter__'', ''__lookupSetter__'', ''isPrototypeOf'', ''propertyIsEnumerable'',
      ''toString'', ''valueOf'', ''toLocaleString'']"

text \<open>The object \<open>{}\<close>, and \<open>delete object[name]\<close>, after which the inherited member shows again.\<close>

definition plainObject :: dictionary where
  "plainObject = (\<lambda>name. if name \<in> set objectPrototypeNames then Some NoNumber else None)"

definition deleteProperty :: "string \<Rightarrow> dictionary \<Rightarrow> dictionary" where
  "deleteProperty name object = object(name := plainObject name)"

text \<open>
  Truthiness of a property read, \<open>x + n\<close> for a byte count \<open>n\<close>, \<open>x + 1\<close> and \<open>x - 1\<close> as \<open>++\<close>
  and \<open>--\<close> compute them (after \<open>ToNumber\<close>), and the comparisons \<open>x < 1\<close> and \<open>x > m\<close>.
  Every comparison with \<open>NaN\<close> is false. \<open>--\<close> is applied to truthy values only.
\<close>

fun truthyValue :: "jsValue option \<Rightarrow> bool" where
  "truthyValue (Some (Num n)) = (n \<noteq> 0)"
| "truthyValue (Some NoNumber) = True"
| "truthyValue _ = False"

fun plusBytes :: "jsValue option \<Rightarrow> nat \<Rightarrow> jsValue" where
  "plusBytes (Some (Num m)) n = Num (m + n)"
| "plusBytes (Some NoNumber) n = NoNumber"
| "plusBytes _ n = NaN"

fun plusOne :: "jsValue option \<Rightarrow> jsValue" where
  "plusOne (Some (Num m)) = Num (m + 1)"
| "plusOne _ = NaN"

fun minusOne :: "jsValue option \<Rightarrow> jsValue" where
  "minusOne (Some (Num m)) = Num (m - 1)"
| "minusOne _ = NaN"

fun belowOne :: "jsValue option \<Rightarrow> bool" where
  "belowOne (Some (Num m)) = (m < 1)"
| "belowOne _ = False"

fun exceeds :: "jsValue \<Rightarrow> nat \<Rightarrow> bool" where
  "exceeds (Num n) m = (n > m)"
| "exceeds _ m = False"

text \<open>
  \<open>FileStatus\<close> (mod.ts 64-70). The progress is what the dictionary holds for the path; it
  is absent in the status that reports a truncated save (mod.ts 877-885).
\<close>

datatype statusKind = Saving | Deleting | ErrorStatus

record fileStatus =
  fs_URIComponent :: string
  fs_path :: "string list"
  fs_progress :: "jsValue option"
  fs_status :: statusKind
  fs_msg :: "string option"

text \<open>
  The stored part of \<open>File\<close> (mod.ts 51-58, 266-271); the content stream is attached
  when the file is read. A metadata object is represented by its \<open>JSON.stringify\<close>
  text, the only thing the engine computes from it; \<open>{}\<close> is the text \<open>{}\<close>.
\<close>

type_synonym metadata = string

record fileRecord =
  f_path :: "string list"
  f_URIComponent :: string
  f_metadata :: "metadata option"
  f_flags :: "string list"
  f_size :: nat

text \<open>What JavaScript throws: the error's kind and its message.\<close>

datatype jsError = URIError | TypeError string | Error string

fun message :: "jsError \<Rightarrow> string" where
  "message URIError = ''URI malformed''"
| "message (TypeError m) = m"
| "message (Error m) = m"

datatype 'a outcome = Returns 'a | Throws jsError

text \<open>
  A \<open>ReadableStream\<close> given as content: the blocks its source delivers, then the close
  or the error of the source; \<open>rs_bytes\<close> says whether it is a byte stream, one that
  hands out a BYOB reader.
\<close>

record rstream =
  rs_blocks :: "bytes list"
  rs_failure :: "jsError option"
  rs_bytes :: bool

datatype content = Str string | Bytes bytes | Stream rstream

text \<open>
  \<open>SaveOptions\<close> and \<open>ReadOptions\<close> (mod.ts 10-31) after the merge with the defaults
  (mod.ts 32-46, 200, 300): a field the caller leaves out holds its default. Only
  \<open>metadata\<close>, \<open>cursor\<close> and \<open>clientId\<close> have no default.
\<close>

record saveOptions =
  so_path :: "string list"
  so_content :: content
  so_metadata :: "metadata option"
  so_chunksPerSecond :: nat
  so_clientId :: clientId
  so_validateAccess :: "string list \<Rightarrow> bool"
  so_maxClientIdConcurrentReqs :: nat
  so_maxFileSizeBytes :: nat
  so_allowedExtensions :: "string list"

record readOptions =
  ro_path :: "string list"
  ro_chunksPerSecond :: nat
  ro_maxDirEntriesPerSecond :: nat
  ro_clientId :: clientId
  ro_validateAccess :: "string list \<Rightarrow> bool"
  ro_maxClientIdConcurrentReqs :: nat
  ro_pagination :: bool
  ro_cursor :: "string list option"

definition defaultSaveOptions :: "string list \<Rightarrow> content \<Rightarrow> saveOptions" where
  "defaultSaveOptions p c =
     \<lparr>so_path = p, so_content = c, so_metadata = None,
      so_chunksPerSecond = MAX_SAFE_INTEGER, so_clientId = NoClientId,
      so_validateAccess = (\<lambda>_. True), so_maxClientIdConcurrentReqs = MAX_SAFE_INTEGER,
      so_maxFileSizeBytes = MAX_SAFE_INTEGER, so_allowedExtensions = []\<rparr>"

definition defaultReadOptions :: "string list \<Rightarrow> readOptions" where
  "defaultReadOptions p =
     \<lparr>ro_path = p, ro_chunksPerSecond = MAX_SAFE_INTEGER,
      ro_maxDirEntriesPerSecond = MAX_SAFE_INTEGER, ro_clientId = NoClientId,
      ro_validateAccess = (\<lambda>_. True), ro_maxClientIdConcurrentReqs = MAX_SAFE_INTEGER,
      ro_pagination = False, ro_cursor = None\<rparr>"

text \<open>\<open>this.delete(options)\<close> with the options of a save (mod.ts 278).\<close>

definition readOptionsOfSave :: "saveOptions \<Rightarrow> readOptions" where
  "readOptionsOfSave opts =
     (defaultReadOptions (so_path opts))
       \<lparr>ro_chunksPerSecond := so_chunksPerSecond opts, ro_clientId := so_clientId opts,
        ro_validateAccess := so_validateAccess opts,
        ro_maxClientIdConcurrentReqs := so_maxClientIdConcurrentReqs opts\<rparr>"

text \<open>
  The value of an unresolved marker (mod.ts 594-597, 616-619): the options of the save or
  of the delete, without the content and the predicate.
\<close>

record saveMarker =
  sm_path :: "string list"
  sm_metadata :: "metadata option"
  sm_chunksPerSecond :: nat
  sm_clientId :: clientId
  sm_maxClientIdConcurrentReqs :: nat
  sm_maxFileSizeBytes :: nat
  sm_allowedExtensions :: "string list"

record readMarker =
  rm_path :: "string list"
  rm_chunksPerSecond :: nat
  rm_maxDirEntriesPerSecond :: nat
  rm_clientId :: clientId
  rm_maxClientIdConcurrentReqs :: nat
  rm_pagination :: bool
  rm_cursor :: "string list option"

datatype marker = OfSave saveMarker | OfRead readMarker

definition markerOfSave :: "saveOptions \<Rightarrow> marker" where
  "markerOfSave opts =
     OfSave \<lparr>sm_path = so_path opts, sm_metadata = so_metadata opts,
             sm_chunksPerSecond = so_chunksPerSecond opts, sm_clientId = so_clientId opts,
             sm_maxClientIdConcurrentReqs = so_maxClientIdConcurrentReqs opts,
             sm_maxFileSizeBytes = so_maxFileSizeBytes opts,
             sm_allowedExtensions = so_allowedExtensions opts\<rparr>"

definition markerOfRead :: "readOptions \<Rightarrow> marker" where
  "markerOfRead opts =
     OfRead \<lparr>rm_path = ro_path opts, rm_chunksPerSecond = ro_chunksPerSecond opts,
             rm_maxDirEntriesPerSecond = ro_maxDirEntriesPerSecond opts,
             rm_clientId = ro_clientId opts,
             rm_maxClientIdConcurrentReqs = ro_maxClientIdConcurrentReqs opts,
             rm_pagination = ro_pagination opts, rm_cursor = ro_cursor opts\<rparr>"

section \<open>The key-value substrate\<close>

text \<open>
  \<open>Deno.Kv\<close> holds three families of keys, one association list each:
  \<open>("deno_kv_fs", "files", ...path)\<close> is the key \<open>path\<close> of \<open>files\<close>,
  \<open>("deno_kv_fs", "chunks", uri, index)\<close> the key \<open>(uri, index)\<close> of \<open>chunks\<close>, and
  \<open>("deno_kv_fs", "unresolved", uri)\<close> the key \<open>uri\<close> of \<open>unresolved\<close>. A list stands
  for the finite map \<open>map_of\<close> reads from it; \<open>set\<close>, \<open>get\<close> and \<open>delete\<close> of a key
  are \<open>AList.update\<close>, \<open>map_of\<close> and \<open>AList.delete\<close>.

  An operation of the substrate can fail: the database does not open, a key or a value
  is refused, the storage is out of reach. Which operations fail, and with what error,
  is not decided by the engine: it is the parameter \<open>kvFault\<close> of the state, that gives
  every operation its error, or none. A fault that comes and goes between two runs of
  one operation is outside the model.
\<close>

datatype kvKey = FileKey "string list" | ChunkKey string nat | MarkerKey string

datatype kvSelector = FilesUnder "string list" | ChunksOf string | ChunksFrom string nat

datatype kvOp = OpenKv | KvGet kvKey | KvSet kvKey | KvDelete kvKey | KvList kvSelector

text \<open>
  The rest of the engine's state: the three dictionaries (mod.ts 85-87); the calls of
  \<open>onFileProgress\<close> so far, oldest first; the values \<open>Date.now()\<close> is going to return;
  and the deletes started without \<open>await\<close> (mod.ts 278), which run after the operation
  that started them has returned.
\<close>

record engine =
  files :: "(string list \<times> fileRecord) list"
  chunks :: "((string \<times> nat) \<times> bytes) list"
  unresolved :: "(string \<times> marker) list"
  kvFault :: "kvOp \<Rightarrow> jsError option"
  clientsReqsMap :: dictionary
  savingFiles :: dictionary
  deletingFiles :: dictionary
  progressLog :: "fileStatus option list"
  clock :: "int list"
  scheduledDeletes :: "readOptions list"

text \<open>
  One operation of the substrate, as far as it can fail, and \<open>#initKv\<close> (mod.ts 529-533),
  which opens the database when the engine was built without one.
\<close>

definition kvDo :: "kvOp \<Rightarrow> engine \<Rightarrow> unit outcome" where
  "kvDo op s = (case kvFault s op of Some e \<Rightarrow> Throws e | None \<Rightarrow> Returns ())"

definition initKv :: "engine \<Rightarrow> unit outcome" where
  "initKv s = kvDo OpenKv s"

text \<open>The entries of a key family in the order of their keys, as \<open>kv.list\<close> walks them.\<close>

definition entries :: "('k::linorder \<times> 'v) list \<Rightarrow> ('k \<times> 'v) list" where
  "entries al = map (\<lambda>k. (k, the (map_of al k))) (sort (remdups (map fst al)))"

text \<open>
  \<open>kv.list(selector, {limit, cursor})\<close> run to its end over the selected entries \<open>es\<close>:
  at most \<open>limit\<close> entries behind the cursor. A cursor is the key of the entry it was
  taken at.
\<close>

definition afterCursor :: "'k::linorder option \<Rightarrow> ('k \<times> 'v) list \<Rightarrow> ('k \<times> 'v) list" where
  "afterCursor cursor es =
     (case cursor of None \<Rightarrow> es | Some c \<Rightarrow> filter (\<lambda>e. c < fst e) es)"

definition listPage :: "('k::linorder \<times> 'v) list \<Rightarrow> 'k option \<Rightarrow> nat \<Rightarrow> ('k \<times> 'v) list" where
  "listPage es cursor limit = take limit (afterCursor cursor es)"

text \<open>
  \<open>pagedListIterator\<close> (mod.ts 128-161), every caller passing \<open>limit: 1000\<close>. The
  iterator of a page is done either because it ran dry, and then its cursor is empty and
  the walk ends, or because it reached the limit, and then the walk goes on from the
  cursor of the last entry. Each value comes with the cursor it was tagged with: the
  iterator's, on every 1000th value.
\<close>

definition tagPage :: "('k \<times> 'v) list \<Rightarrow> (('k \<times> 'v) \<times> 'k option) list" where
  "tagPage page =
     (if length page = maxPageSize
      then map (\<lambda>e. (e, None)) (butlast page) @ [(last page, Some (fst (last page)))]
      else map (\<lambda>e. (e, None)) page)"

lemma afterCursor_last_shorter:
  assumes "e \<in> set (afterCursor cursor es)"
  shows "length (afterCursor (Some (fst e)) es) < length (afterCursor cursor es)"
proof -
  have e: "e \<in> set es" using assms by (auto simp: afterCursor_def split: option.splits)
  have "afterCursor (Some (fst e)) es =
        filter (\<lambda>x. fst e < fst x) (afterCursor cursor es)"
    using assms by (auto simp: afterCursor_def split: option.splits intro!: filter_cong)
  moreover have "length (filter (\<lambda>x. fst e < fst x) (afterCursor cursor es)) <
                 length (afterCursor cursor es)"
    by (rule length_filter_less [OF assms]) simp
  ultimately show ?thesis by simp
qed

function pagedListIterator ::
  "('k::linorder \<times> 'v) list \<Rightarrow> 'k option \<Rightarrow> (('k \<times> 'v) \<times> 'k option) list" where
  "pagedListIterator es cursor =
     (let page = listPage es cursor maxPageSize in
      if length page < maxPageSize then tagPage page
      else tagPage page @ pagedListIterator es (Some (fst (last page))))"
  by pat_completeness auto
termination
proof (relation "measure (\<lambda>(es, cursor). length (afterCursor cursor es))", goal_cases)
  case 1
  show ?case by simp
next
  case (2 es cursor page)
  then have "page \<noteq> []" by (auto simp: maxPageSize_def)
  then have "last page \<in> set page" by simp
  then have "last page \<in> set (afterCursor cursor es)"
    using 2 by (auto simp: listPage_def dest: in_set_takeD)
  then show ?case
    using afterCursor_last_shorter by fastforce
qed

text \<open>The selectors the engine scans with.\<close>

definition chunksPrefix :: "engine \<Rightarrow> string \<Rightarrow> ((string \<times> nat) \<times> bytes) list" where
  "chunksPrefix s uri = filter (\<lambda>e. fst (fst e) = uri) (entries (chunks s))"

definition chunksRange :: "engine \<Rightarrow> string \<Rightarrow> nat \<Rightarrow> nat \<Rightarrow> ((string \<times> nat) \<times> bytes) list" where
  "chunksRange s uri start end' =
     filter (\<lambda>e. fst (fst e) = uri \<and> start \<le> snd (fst e) \<and> snd (fst e) < end')
       (entries (chunks s))"

definition filesPrefix :: "engine \<Rightarrow> string list \<Rightarrow> (string list \<times> fileRecord) list" where
  "filesPrefix s p =
     filter (\<lambda>e. take (length p) (fst e) = p \<and> fst e \<noteq> p) (entries (files s))"

section \<open>The in-flight registry\<close>

text \<open>
  \<open>getClientReqs\<close> (mod.ts 104-106): \<open>this.#clientsReqsMap[clientId] || 0\<close>, the property
  the id names when it is truthy, and 0 otherwise.
\<close>

definition getClientReqs :: "engine \<Rightarrow> clientId \<Rightarrow> jsValue" where
  "getClientReqs s clientId =
     (case clientsReqsMap s (propertyKey clientId) of
        None \<Rightarrow> Num 0
      | Some v \<Rightarrow> if truthyValue (Some v) then v else Num 0)"

text \<open>
  \<open>_incrementClientIdReq\<close> and \<open>_decrementClientIdReq\<close> (mod.ts 572-589). The counter is
  set to 0 when what the object holds under the name is falsy, and then incremented; it
  is decremented when what the object holds is truthy, and deleted when it has fallen
  below 1.
\<close>

definition incrementClientIdReq :: "clientId \<Rightarrow> engine \<Rightarrow> engine" where
  "incrementClientIdReq clientId s =
     (if truthy clientId
      then (let name = propertyKey clientId;
                m = clientsReqsMap s;
                m1 = (if \<not> truthyValue (m name) then m(name \<mapsto> Num 0) else m)
            in s\<lparr>clientsReqsMap := m1(name \<mapsto> plusOne (m1 name))\<rparr>)
      else s)"

definition decrementClientIdReq :: "clientId \<Rightarrow> engine \<Rightarrow> engine" where
  "decrementClientIdReq clientId s =
     (if truthy clientId
      then (let name = propertyKey clientId;
                m = clientsReqsMap s
            in if truthyValue (m name)
               then (let m1 = m(name \<mapsto> minusOne (m name))
                     in s\<lparr>clientsReqsMap :=
                            (if belowOne (m1 name) then deleteProperty name m1 else m1)\<rparr>)
               else s)
      else s)"

text \<open>
  \<open>#fileIsSaving\<close>, \<open>#fileIsDeleting\<close> and \<open>#fileStatus\<close> (mod.ts 541-571); \<open>name in object\<close>
  holds when reading the property does not give \<open>undefined\<close>, the engine storing numbers
  only.
\<close>

definition fileIsSaving :: "engine \<Rightarrow> string \<Rightarrow> bool" where
  "fileIsSaving s uri = (savingFiles s uri \<noteq> None)"

definition fileIsDeleting :: "engine \<Rightarrow> string \<Rightarrow> bool" where
  "fileIsDeleting s uri = (deletingFiles s uri \<noteq> None)"

definition fileStatus :: "engine \<Rightarrow> string \<Rightarrow> fileStatus option outcome" where
  "fileStatus s uri =
     (if fileIsSaving s uri
      then (case URIComponentToPath uri of
              None \<Rightarrow> Throws URIError
            | Some p \<Rightarrow>
                Returns (Some \<lparr>fs_URIComponent = uri, fs_path = p,
                                fs_progress = savingFiles s uri, fs_status = Saving,
                                fs_msg = None\<rparr>))
      else if fileIsDeleting s uri
      then (case URIComponentToPath uri of
              None \<Rightarrow> Throws URIError
            | Some p \<Rightarrow>
                Returns (Some \<lparr>fs_URIComponent = uri, fs_path = p,
                                fs_progress = deletingFiles s uri, fs_status = Deleting,
                                fs_msg = None\<rparr>))
      else Returns None)"

text \<open>\<open>this.onFileProgress(status)\<close>, the callback being the one that records.\<close>

definition onFileProgress :: "fileStatus option \<Rightarrow> engine \<Rightarrow> engine" where
  "onFileProgress st s = s\<lparr>progressLog := progressLog s @ [st]\<rparr>"

definition errorStatus :: "string \<Rightarrow> string list \<Rightarrow> string \<Rightarrow> fileStatus" where
  "errorStatus uri p m =
     \<lparr>fs_URIComponent = uri, fs_path = p, fs_progress = Some (Num 0), fs_status = ErrorStatus,
      fs_msg = Some m\<rparr>"

text \<open>
  \<open>#startSaving\<close>, \<open>#endSaving\<close>, \<open>#startDeleting\<close> and \<open>#endDeleting\<close>
  (mod.ts 590-633). When the \<open>set\<close> of the marker fails, the counter and the dictionary
  have been written; when the \<open>delete\<close> of the marker fails, they have not been touched.
\<close>

definition startSaving :: "saveOptions \<Rightarrow> engine \<Rightarrow> unit outcome \<times> engine" where
  "startSaving params s =
     (let s1 = incrementClientIdReq (so_clientId params) s;
          uri = pathToURIComponent (so_path params);
          s2 = s1\<lparr>savingFiles := (savingFiles s1)(uri \<mapsto> Num 0)\<rparr>
      in case kvDo (KvSet (MarkerKey uri)) s2 of
           Throws e \<Rightarrow> (Throws e, s2)
         | Returns _ \<Rightarrow>
             (Returns (),
              s2\<lparr>unresolved := AList.update uri (markerOfSave params) (unresolved s2)\<rparr>))"

definition endSaving :: "saveOptions \<Rightarrow> bool \<Rightarrow> engine \<Rightarrow> unit outcome \<times> engine" where
  "endSaving params resolved s =
     (let uri = pathToURIComponent (so_path params) in
      case (if resolved then kvDo (KvDelete (MarkerKey uri)) s else Returns ()) of
        Throws e \<Rightarrow> (Throws e, s)
      | Returns _ \<Rightarrow>
          (let s1 = (if resolved then s\<lparr>unresolved := AList.delete uri (unresolved s)\<rparr> else s);
               s2 = s1\<lparr>savingFiles := deleteProperty uri (savingFiles s1)\<rparr>
           in (Returns (), decrementClientIdReq (so_clientId params) s2)))"

definition startDeleting :: "readOptions \<Rightarrow> engine \<Rightarrow> unit outcome \<times> engine" where
  "startDeleting params s =
     (let s1 = incrementClientIdReq (ro_clientId params) s;
          uri = pathToURIComponent (ro_path params);
          s2 = s1\<lparr>deletingFiles := (deletingFiles s1)(uri \<mapsto> Num 0)\<rparr>
      in case kvDo (KvSet (MarkerKey uri)) s2 of
           Throws e \<Rightarrow> (Throws e, s2)
         | Returns _ \<Rightarrow>
             (Returns (),
              s2\<lparr>unresolved := AList.update uri (markerOfRead params) (unresolved s2)\<rparr>))"

definition endDeleting :: "readOptions \<Rightarrow> bool \<Rightarrow> engine \<Rightarrow> unit outcome \<times> engine" where
  "endDeleting params resolved s =
     (let uri = pathToURIComponent (ro_path params) in
      case (if resolved then kvDo (KvDelete (MarkerKey uri)) s else Returns ()) of
        Throws e \<Rightarrow> (Throws e, s)
      | Returns _ \<Rightarrow>
          (let s1 = (if resolved then s\<lparr>unresolved := AList.delete uri (unresolved s)\<rparr> else s);
               s2 = s1\<lparr>deletingFiles := deleteProperty uri (deletingFiles s1)\<rparr>
           in (Returns (), decrementClientIdReq (ro_clientId params) s2)))"

section \<open>The rate limiter\<close>

text \<open>\<open>Date.now()\<close>: the next reading of the clock; \<open>delay\<close> only lets time pass.\<close>

definition dateNow :: "engine \<Rightarrow> int \<times> engine" where
  "dateNow s = (case clock s of [] \<Rightarrow> (0, s) | t # ts \<Rightarrow> (t, s\<lparr>clock := ts\<rparr>))"

text \<open>
  The block every loop of the engine ends with (mod.ts 353-363, 506-516, 653-670, 690-702,
  758-768, 861-873, 916-928), \<open>emit\<close> being what the loop reports at a throttled sleep
  and at a new window. It takes and returns the window's start and the count.
\<close>

definition rateLimit ::
  "nat \<Rightarrow> (engine \<Rightarrow> unit outcome \<times> engine) \<Rightarrow> int \<times> nat \<Rightarrow> engine \<Rightarrow>
   (int \<times> nat) outcome \<times> engine" where
  "rateLimit limit emit tc s =
     (let (now, s1) = dateNow s in
      if now - fst tc < oneSecondDelayMillis
      then (let count = snd tc + 1 in
            if count > limit
            then (case emit s1 of
                    (Throws e, s2) \<Rightarrow> (Throws e, s2)
                  | (Returns _, s2) \<Rightarrow>
                      (let (now', s3) = dateNow s2 in (Returns (now', 0), s3)))
            else (Returns (fst tc, count), s1))
      else (let (now', s2) = dateNow s1 in
            case emit s2 of
              (Throws e, s3) \<Rightarrow> (Throws e, s3)
            | (Returns _, s3) \<Rightarrow> (Returns (now', 0), s3)))"

definition noEmit :: "engine \<Rightarrow> unit outcome \<times> engine" where
  "noEmit s = (Returns (), s)"

text \<open>\<open>this.onFileProgress(this.#fileStatus(uri)!)\<close>.\<close>

definition emitFileStatus :: "string \<Rightarrow> engine \<Rightarrow> unit outcome \<times> engine" where
  "emitFileStatus uri s =
     (case fileStatus s uri of
        Throws e \<Rightarrow> (Throws e, s)
      | Returns st \<Rightarrow> (Returns (), onFileProgress st s))"

section \<open>The chunker\<close>

text \<open>\<open>#toChunks\<close> (mod.ts 77-83): \<open>Math.ceil(arr.length / 65536)\<close> slices.\<close>

definition toChunks :: "bytes \<Rightarrow> bytes list" where
  "toChunks arr =
     map (\<lambda>i. take chunkSize (drop (i * chunkSize) arr))
       [0..<(length arr + chunkSize - 1) div chunkSize]"

text \<open>
  \<open>reader.read(view)\<close> of a BYOB reader, \<open>n\<close> being the length of the view: bytes of the
  next block, at most \<open>n\<close>; or done, with an empty view, when the source has closed; or
  the error of the source.
\<close>

datatype readResult = ReadValue bytes rstream | ReadDone | ReadError jsError

definition readInto :: "rstream \<Rightarrow> nat \<Rightarrow> readResult" where
  "readInto r n =
     (case rs_blocks r of
        [] \<Rightarrow> (case rs_failure r of Some e \<Rightarrow> ReadError e | None \<Rightarrow> ReadDone)
      | b # bs \<Rightarrow>
          ReadValue (take n b)
            (r\<lparr>rs_blocks := (if length b \<le> n then bs else drop n b # bs)\<rparr>))"

definition streamSize :: "rstream \<Rightarrow> nat" where
  "streamSize r = length (concat (rs_blocks r)) + length (rs_blocks r)"

lemma readInto_streamSize:
  "readInto r n = ReadValue v r' \<Longrightarrow> 0 < n \<Longrightarrow> streamSize r' < streamSize r"
  by (auto simp: readInto_def streamSize_def split: list.splits option.splits if_splits)

text \<open>
  \<open>#getChunkIter\<close> (mod.ts 776-799): fills a buffer of 65536 bytes by repeated reads.
  The result is the bytes read, whether the reader reported done, and the reader after
  it.
\<close>

function getChunkIterLoop :: "rstream \<Rightarrow> bytes \<Rightarrow> (bytes \<times> bool \<times> rstream) outcome" where
  "getChunkIterLoop r acc =
     (if length acc < chunkSize
      then (case readInto r (chunkSize - length acc) of
              ReadError e \<Rightarrow> Throws e
            | ReadDone \<Rightarrow> Returns (acc, True, r)
            | ReadValue v r' \<Rightarrow> getChunkIterLoop r' (acc @ v))
      else Returns (acc, False, r))"
  by pat_completeness auto
termination
proof (relation "measure (\<lambda>(r, acc). streamSize r)", goal_cases)
  case 1
  show ?case by simp
next
  case (2 r acc v r')
  then show ?case
    using readInto_streamSize [of r "chunkSize - length acc" v r'] by simp
qed

definition getChunkIter :: "rstream \<Rightarrow> (bytes \<times> bool \<times> rstream) outcome" where
  "getChunkIter reader = getChunkIterLoop reader []"

text \<open>
  \<open>#createByteStream\<close> (mod.ts 800-822), the byte stream put around a stream that hands
  out no BYOB reader: it passes the blocks on, and fails with the \<open>TypeError\<close> of
  \<open>controller.enqueue\<close> at a block without bytes. The text of that error is given by
  the platform and may differ between its versions; what is proved here depends on the
  kind of the error, not on its text.
\<close>

definition emptyChunkError :: jsError where
  "emptyChunkError =
     TypeError (''Failed to execute 'enqueue' on 'ReadableByteStreamController': '' @
                ''Argument 1 length must be non-zero'')"

definition createByteStream :: "rstream \<Rightarrow> rstream" where
  "createByteStream r =
     (let good = takeWhile (\<lambda>b. b \<noteq> []) (rs_blocks r) in
      if length good < length (rs_blocks r)
      then \<lparr>rs_blocks = good, rs_failure = Some emptyChunkError, rs_bytes = True\<rparr>
      else \<lparr>rs_blocks = rs_blocks r, rs_failure = rs_failure r, rs_bytes = True\<rparr>)"

section \<open>Saving\<close>

text \<open>The variables of the two save loops (mod.ts 827-846, 899-903).\<close>

record saveLoop =
  sizeBytes :: nat
  totalCount :: nat
  windowStart :: int
  chunksCount :: nat
  flags :: "string list"

text \<open>
  \<open>#retract\<close> (mod.ts 634-672): the scan of the range from
  \<open>(chunks, uri, nextChunkIndex)\<close> up to, and without, \<open>(chunks, uri, MAX_SAFE_INTEGER)\<close>,
  each entry deleted as the walk yields it. What the walk yields is what the range held
  when it started: the deletes are behind its cursor.
\<close>

definition emitRetract :: "string \<Rightarrow> nat \<Rightarrow> engine \<Rightarrow> unit outcome \<times> engine" where
  "emitRetract uri totalBytes s =
     (case fileStatus s uri of
        Throws e \<Rightarrow> (Throws e, s)
      | Returns None \<Rightarrow>
          (Throws (TypeError ''Cannot set properties of undefined (setting msg)''), s)
      | Returns (Some st) \<Rightarrow>
          (Returns (),
           onFileProgress
             (Some (st\<lparr>fs_msg := Some (''Deleting previous data, '' @ natToString totalBytes @
                                        '' bytes deleted.'')\<rparr>)) s))"

fun retractLoop ::
  "string \<Rightarrow> saveOptions \<Rightarrow> ((string \<times> nat) \<times> bytes) list \<Rightarrow> int \<times> nat \<Rightarrow> nat \<Rightarrow> engine \<Rightarrow>
   unit outcome \<times> engine" where
  "retractLoop uri params [] tc totalBytes s = (Returns (), s)"
| "retractLoop uri params (v # vs) tc totalBytes s =
     (case kvDo (KvDelete (ChunkKey (fst (fst v)) (snd (fst v)))) s of
        Throws e \<Rightarrow> (Throws e, s)
      | Returns _ \<Rightarrow>
          (let s1 = s\<lparr>chunks := AList.delete (fst v) (chunks s)\<rparr>;
               totalBytes' = totalBytes + length (snd v)
           in case rateLimit (so_chunksPerSecond params) (emitRetract uri totalBytes') tc s1 of
                (Throws e, s2) \<Rightarrow> (Throws e, s2)
              | (Returns tc', s2) \<Rightarrow> retractLoop uri params vs tc' totalBytes' s2))"

definition retract :: "saveOptions \<Rightarrow> nat \<Rightarrow> engine \<Rightarrow> unit outcome \<times> engine" where
  "retract params nextChunkIndex s =
     (let uri = pathToURIComponent (so_path params);
          (now, s1) = dateNow s;
          vs = map fst (pagedListIterator (chunksRange s1 uri nextChunkIndex MAX_SAFE_INTEGER) None)
      in case kvDo (KvList (ChunksFrom uri nextChunkIndex)) s1 of
           Throws e \<Rightarrow> (Throws e, s1)
         | Returns _ \<Rightarrow> retractLoop uri params vs (now, 0) 0 s1)"

text \<open>The end of both save functions (mod.ts 875-892, 930-947).\<close>

definition incompleteStatus :: "string \<Rightarrow> saveOptions \<Rightarrow> fileStatus" where
  "incompleteStatus uri params =
     \<lparr>fs_URIComponent = uri, fs_path = so_path params, fs_progress = None,
      fs_status = ErrorStatus,
      fs_msg = Some (''The file exceeded the maximum allowed of '' @
                     natToString (so_maxFileSizeBytes params) @ '' bytes.'')\<rparr>"

definition finishSave ::
  "string \<Rightarrow> saveOptions \<Rightarrow> saveLoop \<Rightarrow> engine \<Rightarrow> (string list \<times> nat) outcome \<times> engine" where
  "finishSave uri params l s =
     (case retract params (totalCount l + 1) s of
        (Throws e, s1) \<Rightarrow> (Throws e, s1)
      | (Returns _, s1) \<Rightarrow>
          if ''incomplete'' \<in> set (flags l)
          then (Returns (flags l, sizeBytes l),
                onFileProgress (Some (incompleteStatus uri params)) s1)
          else (case emitFileStatus uri s1 of
                  (Throws e, s2) \<Rightarrow> (Throws e, s2)
                | (Returns _, s2) \<Rightarrow> (Returns (flags l, sizeBytes l), s2)))"

text \<open>
  The body of both loops after the chunk is there (mod.ts 850-873, 905-928): the check
  of the cap, the put of the chunk, the progress, the rate limiter. \<open>None\<close> is the
  \<open>break\<close>.
\<close>

definition putChunk ::
  "string \<Rightarrow> saveOptions \<Rightarrow> bytes \<Rightarrow> saveLoop \<Rightarrow> engine \<Rightarrow> saveLoop option outcome \<times> engine" where
  "putChunk uri params chunk l s =
     (if sizeBytes l > so_maxFileSizeBytes params
      then (Returns None, s)
      else (case kvDo (KvSet (ChunkKey uri (totalCount l + 1))) s of
              Throws e \<Rightarrow> (Throws e, s)
            | Returns _ \<Rightarrow>
                (let n = totalCount l + 1;
                     s1 = s\<lparr>chunks := AList.update (uri, n) chunk (chunks s)\<rparr>;
                     size' = sizeBytes l + length chunk;
                     s2 = s1\<lparr>savingFiles := (savingFiles s1)(uri \<mapsto> Num size')\<rparr>
                 in case rateLimit (so_chunksPerSecond params) (emitFileStatus uri)
                           (windowStart l, chunksCount l) s2 of
                      (Throws e, s3) \<Rightarrow> (Throws e, s3)
                    | (Returns tc, s3) \<Rightarrow>
                        (Returns (Some (l\<lparr>sizeBytes := size', totalCount := n,
                                            windowStart := fst tc, chunksCount := snd tc\<rparr>)),
                         s3))))"

definition markIncomplete :: "saveLoop \<Rightarrow> saveLoop" where
  "markIncomplete l = l\<lparr>flags := flags l @ [''incomplete'']\<rparr>"

text \<open>\<open>#saveFromUint8Array\<close> (mod.ts 894-948).\<close>

fun saveChunksLoop ::
  "string \<Rightarrow> saveOptions \<Rightarrow> bytes list \<Rightarrow> saveLoop \<Rightarrow> engine \<Rightarrow> saveLoop outcome \<times> engine" where
  "saveChunksLoop uri params [] l s = (Returns l, s)"
| "saveChunksLoop uri params (chunk # rest) l s =
     (case putChunk uri params chunk l s of
        (Throws e, s1) \<Rightarrow> (Throws e, s1)
      | (Returns None, s1) \<Rightarrow> (Returns (markIncomplete l), s1)
      | (Returns (Some l'), s1) \<Rightarrow> saveChunksLoop uri params rest l' s1)"

definition saveFromUint8Array ::
  "string \<Rightarrow> saveOptions \<Rightarrow> bytes \<Rightarrow> engine \<Rightarrow> (string list \<times> nat) outcome \<times> engine" where
  "saveFromUint8Array uri params arr s =
     (let (now, s1) = dateNow s;
          l0 = \<lparr>sizeBytes = 0, totalCount = 0, windowStart = now, chunksCount = 0, flags = []\<rparr>
      in case saveChunksLoop uri params (toChunks arr) l0 s1 of
           (Throws e, s2) \<Rightarrow> (Throws e, s2)
         | (Returns l, s2) \<Rightarrow> finishSave uri params l s2)"

text \<open>\<open>#saveFromReader\<close> (mod.ts 823-893).\<close>

lemma getChunkIterLoop_streamSize:
  "getChunkIterLoop r acc = Returns (c, fin, r') \<Longrightarrow>
   streamSize r' \<le> streamSize r \<and> (\<not> fin \<and> length acc < chunkSize \<longrightarrow> streamSize r' < streamSize r)"
proof (induction r acc rule: getChunkIterLoop.induct)
  case (1 r acc)
  show ?case
  proof (cases "length acc < chunkSize")
    case False
    then show ?thesis using "1.prems" by simp
  next
    case True
    show ?thesis
    proof (cases "readInto r (chunkSize - length acc)")
      case (ReadValue v r1)
      have less: "streamSize r1 < streamSize r"
        using readInto_streamSize [OF ReadValue] True by simp
      have "getChunkIterLoop r1 (acc @ v) = Returns (c, fin, r')"
        using "1.prems" True ReadValue by simp
      then have "streamSize r' \<le> streamSize r1"
        using "1.IH" [OF True ReadValue] by simp
      then show ?thesis using less by simp
    next
      case ReadDone
      then show ?thesis using "1.prems" True by simp
    next
      case (ReadError e)
      then show ?thesis using "1.prems" True by simp
    qed
  qed
qed

function saveReaderLoop ::
  "string \<Rightarrow> saveOptions \<Rightarrow> rstream \<Rightarrow> saveLoop \<Rightarrow> engine \<Rightarrow> saveLoop outcome \<times> engine" where
  "saveReaderLoop uri params reader l s =
     (case getChunkIter reader of
        Throws e \<Rightarrow> (Throws e, s)
      | Returns (chunk, finished, reader') \<Rightarrow>
          (case putChunk uri params chunk l s of
             (Throws e, s1) \<Rightarrow> (Throws e, s1)
           | (Returns None, s1) \<Rightarrow> (Returns (markIncomplete l), s1)
           | (Returns (Some l'), s1) \<Rightarrow>
               if finished then (Returns l', s1)
               else saveReaderLoop uri params reader' l' s1))"
  by pat_completeness auto
termination
proof (relation "measure (\<lambda>(uri, params, reader, l, s). streamSize reader)", goal_cases)
  case 1
  show ?case by simp
next
  case (2 uri params reader l s x chunk y finished reader')
  then have "getChunkIterLoop reader [] = Returns (chunk, False, reader')"
    by (simp add: getChunkIter_def)
  then show ?case
    using getChunkIterLoop_streamSize [of reader "[]" chunk False reader']
    by (simp add: chunkSize_def)
qed

definition saveFromReader ::
  "string \<Rightarrow> saveOptions \<Rightarrow> rstream \<Rightarrow> engine \<Rightarrow> (string list \<times> nat) outcome \<times> engine" where
  "saveFromReader uri params strm s =
     (let reader = (if rs_bytes strm then strm else createByteStream strm);
          (now, s1) = dateNow s;
          l0 = \<lparr>sizeBytes = 0, totalCount = 0, windowStart = now, chunksCount = 0, flags = []\<rparr>
      in case saveReaderLoop uri params reader l0 s1 of
           (Throws e, s2) \<Rightarrow> (Throws e, s2)
         | (Returns l, s2) \<Rightarrow> finishSave uri params l s2)"

text \<open>
  \<open>save\<close> (mod.ts 177-293). The size of the metadata is the number of bytes of its
  JSON text. \<open>#initKv\<close>, \<open>#startSaving\<close> and the \<open>#endSaving\<close> of a client over its cap
  run outside the \<open>try\<close> (mod.ts 231-247): what they throw, \<open>save\<close> throws. \<open>saveTry\<close> is
  the \<open>try\<close> block (mod.ts 248-273) and \<open>saveCatch\<close> the \<open>catch\<close> block (mod.ts 274-292).
\<close>

datatype saveReturn = SavedFile fileRecord | SaveStatus fileStatus

definition capMessage :: "nat \<Rightarrow> string" where
  "capMessage m = ''You can only make a maximum of '' @ natToString m @ '' concurrent requests.''"

definition thrownMessage :: "jsError \<Rightarrow> string" where
  "thrownMessage e = (if message e \<noteq> [] then message e else ''{}'')"

definition returnError ::
  "string \<Rightarrow> string list \<Rightarrow> string \<Rightarrow> engine \<Rightarrow> fileStatus \<times> engine" where
  "returnError uri p m s =
     (let st = errorStatus uri p m in (st, onFileProgress (Some st) s))"

definition fileExtension :: "string \<Rightarrow> string" where
  "fileExtension name = last (split CHR ''.'' name)"

definition extensionMessage :: "string \<Rightarrow> string \<Rightarrow> string list \<Rightarrow> string" where
  "extensionMessage fileExt name allowed =
     ''The file extension is not allowed ('' @ fileExt @ '' in '' @ name @
     ''), allowed extensions: '' @ join '', '' allowed @ ''. ''"

definition saveContent ::
  "string \<Rightarrow> saveOptions \<Rightarrow> engine \<Rightarrow> (string list \<times> nat) outcome \<times> engine" where
  "saveContent uri options s =
     (case so_content options of
        Str text \<Rightarrow> saveFromUint8Array uri options (map of_char text) s
      | Bytes arr \<Rightarrow> saveFromUint8Array uri options arr s
      | Stream strm \<Rightarrow> saveFromReader uri options strm s)"

definition saveTry :: "string \<Rightarrow> saveOptions \<Rightarrow> engine \<Rightarrow> fileRecord outcome \<times> engine" where
  "saveTry uri options s =
     (case saveContent uri options s of
        (Throws e, s1) \<Rightarrow> (Throws e, s1)
      | (Returns (fl, sz), s1) \<Rightarrow>
          (let file = \<lparr>f_path = so_path options, f_URIComponent = uri,
                       f_metadata = Some (case so_metadata options of
                                             None \<Rightarrow> ''{}'' | Some m \<Rightarrow> m),
                       f_flags = fl, f_size = sz\<rparr>
           in case kvDo (KvSet (FileKey (so_path options))) s1 of
                Throws e \<Rightarrow> (Throws e, s1)
              | Returns _ \<Rightarrow>
                  (case endSaving options True
                          (s1\<lparr>files := AList.update (so_path options) file (files s1)\<rparr>) of
                     (Throws e, s2) \<Rightarrow> (Throws e, s2)
                   | (Returns _, s2) \<Rightarrow> (Returns file, s2))))"

definition saveCatch ::
  "string \<Rightarrow> saveOptions \<Rightarrow> jsError \<Rightarrow> engine \<Rightarrow> saveReturn outcome \<times> engine" where
  "saveCatch uri options e s =
     (let s1 = (case endSaving options False s of
                  (Throws _, s') \<Rightarrow> s'
                | (Returns _, s') \<Rightarrow>
                    s'\<lparr>scheduledDeletes := scheduledDeletes s' @ [readOptionsOfSave options]\<rparr>);
          (st, s2) = returnError uri (so_path options) (thrownMessage e) s1
      in (Returns (SaveStatus st), s2))"

definition saveGuarded :: "string \<Rightarrow> saveOptions \<Rightarrow> engine \<Rightarrow> saveReturn outcome \<times> engine" where
  "saveGuarded uri options s =
     (case initKv s of
        Throws e \<Rightarrow> (Throws e, s)
      | Returns _ \<Rightarrow>
          (case startSaving options s of
             (Throws e, s1) \<Rightarrow> (Throws e, s1)
           | (Returns _, s1) \<Rightarrow>
               if exceeds (getClientReqs s1 (so_clientId options))
                    (so_maxClientIdConcurrentReqs options)
               then (case endSaving options True s1 of
                       (Throws e, s2) \<Rightarrow> (Throws e, s2)
                     | (Returns _, s2) \<Rightarrow>
                         (let (st, s3) = returnError uri (so_path options)
                                           (capMessage (so_maxClientIdConcurrentReqs options)) s2
                          in (Returns (SaveStatus st), s3)))
               else (case saveTry uri options s1 of
                       (Returns file, s2) \<Rightarrow> (Returns (SavedFile file), s2)
                     | (Throws e, s2) \<Rightarrow> saveCatch uri options e s2)))"

definition save :: "saveOptions \<Rightarrow> engine \<Rightarrow> saveReturn outcome \<times> engine" where
  "save options s =
     (let uri = pathToURIComponent (so_path options) in
      case fileStatus s uri of
        Throws e \<Rightarrow> (Throws e, s)
      | Returns (Some status) \<Rightarrow> (Returns (SaveStatus status), s)
      | Returns None \<Rightarrow>
          if (case so_metadata options of None \<Rightarrow> False | Some m \<Rightarrow> length m > 60 * 1024)
          then (let (st, s1) = returnError uri (so_path options) ''Metadata exceeds 60KB limit'' s
                in (Returns (SaveStatus st), s1))
          else if \<not> so_validateAccess options (so_path options)
          then (let (st, s1) = returnError uri (so_path options) ''Forbidden'' s
                in (Returns (SaveStatus st), s1))
          else if so_allowedExtensions options \<noteq> []
          then (if so_path options = []
                then (Throws (TypeError
                        ''Cannot read properties of undefined (reading split)''), s)
                else (let name = last (so_path options); fileExt = fileExtension name in
                      if fileExt \<notin> set (so_allowedExtensions options)
                      then (let (st, s1) = returnError uri (so_path options)
                                   (extensionMessage fileExt name (so_allowedExtensions options)) s
                            in (Returns (SaveStatus st), s1))
                      else saveGuarded uri options s))
          else saveGuarded uri options s)"

section \<open>Reading\<close>

text \<open>
  The stream \<open>#contentToStream\<close> builds (mod.ts 716-775): the variables of its closure
  and the state of the stream. The walk over the chunks starts at the first pull; from
  then on \<open>cs_entries\<close> holds what it has still to yield.
\<close>

datatype streamPhase = Readable | Closed | Errored jsError

record contentStream =
  cs_uri :: string
  cs_options :: readOptions
  cs_started :: bool
  cs_entries :: "((string \<times> nat) \<times> bytes) list option"
  cs_window :: "int \<times> nat"
  cs_phase :: streamPhase

definition contentToStream :: "string \<Rightarrow> readOptions \<Rightarrow> engine \<Rightarrow> contentStream \<times> engine" where
  "contentToStream uri options s =
     (let (now, s1) = dateNow s in
      (\<lparr>cs_uri = uri, cs_options = options, cs_started = False, cs_entries = None,
        cs_window = (now, 0), cs_phase = Readable\<rparr>, s1))"

text \<open>
  One call of \<open>pull\<close> (mod.ts 732-773): the chunk it enqueues, if any, and the stream
  after it. \<open>controller.enqueue\<close> of a byte stream throws at a chunk without bytes. The
  walk over the chunks starts at the first \<open>entries.next()\<close>, where the substrate can fail;
  what is thrown inside \<open>pull\<close> makes the stream fail.
\<close>

definition pullFailed ::
  "contentStream \<Rightarrow> jsError \<Rightarrow> engine \<Rightarrow> (bytes option \<times> contentStream) \<times> engine" where
  "pullFailed st e s =
     ((None, st\<lparr>cs_phase := Errored e\<rparr>),
      decrementClientIdReq (ro_clientId (cs_options st)) s)"

definition pullLimit ::
  "bytes option \<Rightarrow> contentStream \<Rightarrow> engine \<Rightarrow> (bytes option \<times> contentStream) \<times> engine" where
  "pullLimit v st s =
     (case rateLimit (ro_chunksPerSecond (cs_options st)) noEmit (cs_window st) s of
        (Throws e, s1) \<Rightarrow> pullFailed st e s1
      | (Returns tc, s1) \<Rightarrow> ((v, st\<lparr>cs_window := tc\<rparr>), s1))"

definition pull :: "contentStream \<Rightarrow> engine \<Rightarrow> (bytes option \<times> contentStream) \<times> engine" where
  "pull st s =
     (let options = cs_options st;
          s1 = (if cs_started st then s else incrementClientIdReq (ro_clientId options) s);
          st1 = st\<lparr>cs_started := True\<rparr>
      in if \<not> cs_started st \<and>
            exceeds (getClientReqs s1 (ro_clientId options)) (ro_maxClientIdConcurrentReqs options)
         then pullFailed st1 (Error (capMessage (ro_maxClientIdConcurrentReqs options))) s1
         else (case (if cs_entries st = None then kvDo (KvList (ChunksOf (cs_uri st))) s1
                     else Returns ()) of
                 Throws e \<Rightarrow> pullFailed st1 e s1
               | Returns _ \<Rightarrow>
                   (case (case cs_entries st of
                            None \<Rightarrow> map fst (pagedListIterator (chunksPrefix s1 (cs_uri st)) None)
                          | Some es \<Rightarrow> es) of
                      [] \<Rightarrow>
                        pullLimit None (st1\<lparr>cs_entries := Some [], cs_phase := Closed\<rparr>)
                          (decrementClientIdReq (ro_clientId options) s1)
                    | v # vs \<Rightarrow>
                        if snd v = []
                        then pullFailed (st1\<lparr>cs_entries := Some vs\<rparr>) emptyChunkError s1
                        else pullLimit (Some (snd v)) (st1\<lparr>cs_entries := Some vs\<rparr>) s1)))"

text \<open>
  \<open>readStream\<close> (mod.ts 95-97): the consumer that drains the stream. It gets the bytes
  of all chunks when the stream closes, and the error when the stream fails.
\<close>

definition pullsLeft :: "contentStream \<Rightarrow> engine \<Rightarrow> nat" where
  "pullsLeft st s =
     (case cs_phase st of
        Readable \<Rightarrow>
          (case cs_entries st of
             None \<Rightarrow> 2 + length (pagedListIterator (chunksPrefix s (cs_uri st)) None)
           | Some es \<Rightarrow> 1 + length es)
      | _ \<Rightarrow> 0)"

lemma chunks_incrementClientIdReq: "chunks (incrementClientIdReq c s) = chunks s"
  by (simp add: incrementClientIdReq_def Let_def)

lemma chunks_decrementClientIdReq: "chunks (decrementClientIdReq c s) = chunks s"
  by (simp add: decrementClientIdReq_def Let_def)

lemma chunksPrefix_cong: "chunks s = chunks s' \<Longrightarrow> chunksPrefix s uri = chunksPrefix s' uri"
  by (simp add: chunksPrefix_def)

lemma pullsLeft_closed: "cs_phase st \<noteq> Readable \<Longrightarrow> pullsLeft st s = 0"
  by (cases "cs_phase st") (simp_all add: pullsLeft_def)

lemma pullsLeft_entries:
  "cs_phase st = Readable \<Longrightarrow> cs_entries st = Some es \<Longrightarrow> pullsLeft st s = 1 + length es"
  by (simp add: pullsLeft_def)

lemma pullFailed_pullsLeft: "pullFailed st e s = ((v, st'), s') \<Longrightarrow> pullsLeft st' s' = 0"
  by (auto simp: pullFailed_def intro!: pullsLeft_closed)

lemma pullLimit_pullsLeft:
  "pullLimit w st s = ((v, st'), s') \<Longrightarrow> cs_entries st = Some es \<Longrightarrow>
   pullsLeft st' s' \<le> Suc (length es)"
  by (cases "cs_phase st")
     (auto simp: pullLimit_def pullFailed_def pullsLeft_def split: prod.splits outcome.splits)

lemma pull_pullsLeft:
  assumes "cs_phase st = Readable" and "((v, st'), s') = pull st s"
  shows "pullsLeft st' s' < pullsLeft st s"
proof -
  define s1 where "s1 = (if cs_started st then s else incrementClientIdReq (ro_clientId (cs_options st)) s)"
  define es where "es = (case cs_entries st of
      None \<Rightarrow> map fst (pagedListIterator (chunksPrefix s1 (cs_uri st)) None) | Some es \<Rightarrow> es)"
  have pre: "chunksPrefix s1 (cs_uri st) = chunksPrefix s (cs_uri st)"
    unfolding s1_def by (auto intro!: chunksPrefix_cong simp: chunks_incrementClientIdReq)
  have big: "length es < pullsLeft st s"
    using assms(1) by (auto simp: es_def pullsLeft_def pre split: option.splits)
  have pos: "0 < pullsLeft st s"
    using assms(1) by (auto simp: pullsLeft_def split: option.splits)
  have p: "pull st s = ((v, st'), s')" using assms(2) by simp
  show ?thesis
  proof (cases "\<not> cs_started st \<and>
      exceeds (getClientReqs s1 (ro_clientId (cs_options st)))
        (ro_maxClientIdConcurrentReqs (cs_options st))")
    case True
    then have "pullsLeft st' s' = 0"
      using p unfolding pull_def Let_def s1_def [symmetric]
      by (simp add: pullFailed_pullsLeft)
    then show ?thesis using pos by simp
  next
    case False
    show ?thesis
    proof (cases es)
      case Nil
      then have "cs_phase st' \<noteq> Readable"
        using p False unfolding pull_def Let_def s1_def [symmetric] es_def [symmetric]
        by (auto simp: pullLimit_def pullFailed_def split: prod.splits outcome.splits)
      then show ?thesis using pos pullsLeft_closed by simp
    next
      case (Cons e rest)
      then have "pullsLeft st' s' \<le> Suc (length rest)"
        using p False unfolding pull_def Let_def s1_def [symmetric] es_def [symmetric]
        by (auto dest: pullLimit_pullsLeft [where es = rest] simp: pullFailed_pullsLeft
            split: if_splits outcome.splits)
      then show ?thesis using big Cons by simp
    qed
  qed
qed

function readStreamLoop :: "contentStream \<Rightarrow> bytes \<Rightarrow> engine \<Rightarrow> bytes outcome \<times> engine" where
  "readStreamLoop st acc s =
     (case cs_phase st of
        Closed \<Rightarrow> (Returns acc, s)
      | Errored e \<Rightarrow> (Throws e, s)
      | Readable \<Rightarrow>
          (case pull st s of
             ((v, st'), s') \<Rightarrow>
               readStreamLoop st' (acc @ (case v of None \<Rightarrow> [] | Some c \<Rightarrow> c)) s'))"
  by pat_completeness auto
termination
proof (relation "measure (\<lambda>(st, acc, s). pullsLeft st s)", goal_cases)
  case 1
  show ?case by simp
next
  case 2
  then show ?case
    by (auto intro: pull_pullsLeft)
qed

definition readStream :: "contentStream \<Rightarrow> engine \<Rightarrow> bytes outcome \<times> engine" where
  "readStream st s = readStreamLoop st [] s"

text \<open>
  \<open>#contentData\<close> (mod.ts 706-715) and \<open>read\<close> (mod.ts 294-324), which has no \<open>try\<close>:
  what \<open>#initKv\<close> and the \<open>get\<close> throw, \<open>read\<close> throws.
\<close>

definition contentData ::
  "fileRecord \<Rightarrow> readOptions \<Rightarrow> engine \<Rightarrow> (fileRecord \<times> contentStream) \<times> engine" where
  "contentData fileData options s =
     (let uri = pathToURIComponent (ro_path options);
          (strm, s1) = contentToStream uri options s
      in ((fileData\<lparr>f_URIComponent := uri\<rparr>, strm), s1))"

datatype readReturn = ReadFile fileRecord contentStream | ReadStatus fileStatus | ReadNull

definition read :: "readOptions \<Rightarrow> engine \<Rightarrow> readReturn outcome \<times> engine" where
  "read options s =
     (let uri = pathToURIComponent (ro_path options) in
      case fileStatus s uri of
        Throws e \<Rightarrow> (Throws e, s)
      | Returns (Some status) \<Rightarrow> (Returns (ReadStatus status), s)
      | Returns None \<Rightarrow>
          if \<not> ro_validateAccess options (ro_path options)
          then (let (st, s1) = returnError uri (ro_path options) ''Forbidden'' s
                in (Returns (ReadStatus st), s1))
          else (case initKv s of
                  Throws e \<Rightarrow> (Throws e, s)
                | Returns _ \<Rightarrow>
                    (case kvDo (KvGet (FileKey (ro_path options))) s of
                       Throws e \<Rightarrow> (Throws e, s)
                     | Returns _ \<Rightarrow>
                         (case map_of (files s) (ro_path options) of
                            None \<Rightarrow> (Returns ReadNull, s)
                          | Some file \<Rightarrow>
                              (let ((file', strm), s1) = contentData file options s
                               in (Returns (ReadFile file' strm), s1))))))"

section \<open>Deleting, listing and metadata\<close>

text \<open>
  \<open>#deleteChunks\<close> (mod.ts 673-705). The progress of the delete is there when it runs:
  \<open>#startDeleting\<close> has set it.
\<close>

fun deleteChunksLoop ::
  "string \<Rightarrow> readOptions \<Rightarrow> ((string \<times> nat) \<times> bytes) list \<Rightarrow> int \<times> nat \<Rightarrow> engine \<Rightarrow>
   unit outcome \<times> engine" where
  "deleteChunksLoop uri params [] tc s = (Returns (), s)"
| "deleteChunksLoop uri params (v # vs) tc s =
     (case kvDo (KvDelete (ChunkKey (fst (fst v)) (snd (fst v)))) s of
        Throws e \<Rightarrow> (Throws e, s)
      | Returns _ \<Rightarrow>
          (let s1 = s\<lparr>chunks := AList.delete (fst v) (chunks s)\<rparr>;
               s2 = s1\<lparr>deletingFiles :=
                        (deletingFiles s1)(uri \<mapsto> plusBytes (deletingFiles s1 uri)
                                                      (length (snd v)))\<rparr>
           in case rateLimit (ro_chunksPerSecond params) (emitFileStatus uri) tc s2 of
                (Throws e, s3) \<Rightarrow> (Throws e, s3)
              | (Returns tc', s3) \<Rightarrow> deleteChunksLoop uri params vs tc' s3))"

definition deleteChunks :: "readOptions \<Rightarrow> engine \<Rightarrow> unit outcome \<times> engine" where
  "deleteChunks params s =
     (let uri = pathToURIComponent (ro_path params);
          (now, s1) = dateNow s;
          vs = map fst (pagedListIterator (chunksPrefix s1 uri) None)
      in case kvDo (KvList (ChunksOf uri)) s1 of
           Throws e \<Rightarrow> (Throws e, s1)
         | Returns _ \<Rightarrow>
             (case deleteChunksLoop uri params vs (now, 0) s1 of
                (Throws e, s2) \<Rightarrow> (Throws e, s2)
              | (Returns _, s2) \<Rightarrow> emitFileStatus uri s2))"

text \<open>
  \<open>delete\<close> (mod.ts 419-478); \<open>None\<close> is the \<open>void\<close> of a delete that went through.
  \<open>deleteTry\<close> is the \<open>try\<close> block (mod.ts 438-461), which \<open>#initKv\<close> and \<open>#startDeleting\<close>
  are part of, and \<open>deleteCatch\<close> the \<open>catch\<close> block (mod.ts 462-477).
\<close>

definition deleteTry ::
  "string \<Rightarrow> readOptions \<Rightarrow> engine \<Rightarrow> fileStatus option outcome \<times> engine" where
  "deleteTry uri options s =
     (case initKv s of
        Throws e \<Rightarrow> (Throws e, s)
      | Returns _ \<Rightarrow>
          (case startDeleting options s of
             (Throws e, s1) \<Rightarrow> (Throws e, s1)
           | (Returns _, s1) \<Rightarrow>
               if exceeds (getClientReqs s1 (ro_clientId options))
                    (ro_maxClientIdConcurrentReqs options)
               then (case endDeleting options True s1 of
                       (Throws e, s2) \<Rightarrow> (Throws e, s2)
                     | (Returns _, s2) \<Rightarrow>
                         (let (st, s3) = returnError uri (ro_path options)
                                           (capMessage (ro_maxClientIdConcurrentReqs options)) s2
                          in (Returns (Some st), s3)))
               else (case kvDo (KvDelete (FileKey (ro_path options))) s1 of
                       Throws e \<Rightarrow> (Throws e, s1)
                     | Returns _ \<Rightarrow>
                         (case deleteChunks options
                                 (s1\<lparr>files := AList.delete (ro_path options) (files s1)\<rparr>) of
                            (Throws e, s2) \<Rightarrow> (Throws e, s2)
                          | (Returns _, s2) \<Rightarrow>
                              (case endDeleting options True s2 of
                                 (Throws e, s3) \<Rightarrow> (Throws e, s3)
                               | (Returns _, s3) \<Rightarrow> (Returns None, s3))))))"

definition deleteCatch ::
  "string \<Rightarrow> readOptions \<Rightarrow> jsError \<Rightarrow> engine \<Rightarrow> fileStatus option outcome \<times> engine" where
  "deleteCatch uri options e s =
     (let s1 = snd (endDeleting options False s);
          (st, s2) = returnError uri (ro_path options) (thrownMessage e) s1
      in (Returns (Some st), s2))"

definition delete :: "readOptions \<Rightarrow> engine \<Rightarrow> fileStatus option outcome \<times> engine" where
  "delete options s =
     (let uri = pathToURIComponent (ro_path options) in
      case fileStatus s uri of
        Throws e \<Rightarrow> (Throws e, s)
      | Returns (Some status) \<Rightarrow> (Returns (Some status), s)
      | Returns None \<Rightarrow>
          if \<not> ro_validateAccess options (ro_path options)
          then (let (st, s1) = returnError uri (ro_path options) ''Forbidden'' s
                in (Returns (Some st), s1))
          else (case deleteTry uri options s of
                  (Returns r, s1) \<Rightarrow> (Returns r, s1)
                | (Throws e, s1) \<Rightarrow> deleteCatch uri options e s1))"

text \<open>
  \<open>deleteDir\<close> (mod.ts 479-528), which has no \<open>try\<close>: what \<open>#initKv\<close> and the scan throw,
  it throws.
\<close>

fun deleteDirLoop ::
  "readOptions \<Rightarrow> (string list \<times> fileRecord) list \<Rightarrow> int \<times> nat \<Rightarrow> fileStatus list \<Rightarrow> engine \<Rightarrow>
   fileStatus list outcome \<times> engine" where
  "deleteDirLoop options [] tc res s = (Returns res, s)"
| "deleteDirLoop options (entry # es) tc res s =
     (case rateLimit (ro_maxDirEntriesPerSecond options) noEmit tc s of
        (Throws e, s1) \<Rightarrow> (Throws e, s1)
      | (Returns tc', s1) \<Rightarrow>
          (case delete (options\<lparr>ro_path := fst entry\<rparr>) s1 of
             (Throws e, s2) \<Rightarrow> (Throws e, s2)
           | (Returns status, s2) \<Rightarrow>
               deleteDirLoop options es tc'
                 (case status of None \<Rightarrow> res | Some st \<Rightarrow> res @ [st]) s2))"

definition deleteDir :: "readOptions \<Rightarrow> engine \<Rightarrow> fileStatus list outcome \<times> engine" where
  "deleteDir options s =
     (if \<not> ro_validateAccess options (ro_path options)
      then (let (st, s1) = returnError (pathToURIComponent (ro_path options)) (ro_path options)
                             ''Forbidden'' s
            in (Returns [st], s1))
      else (case initKv s of
              Throws e \<Rightarrow> (Throws e, s)
            | Returns _ \<Rightarrow>
                (let (now, s1) = dateNow s;
                     es = map fst (pagedListIterator (filesPrefix s1 (ro_path options)) None)
                 in case kvDo (KvList (FilesUnder (ro_path options))) s1 of
                      Throws e \<Rightarrow> (Throws e, s1)
                    | Returns _ \<Rightarrow> deleteDirLoop options es (now, 0) [] s1)))"

text \<open>
  \<open>readDir\<close> (mod.ts 325-394) and its result, \<open>DirList\<close> (mod.ts 59-63). The size is
  summed with \<open>+=\<close>, from the progress of the files being saved and the sizes of the
  others. \<open>readDir\<close> has no \<open>try\<close> either.
\<close>

datatype dirEntry = DirFile fileRecord contentStream | DirStatus fileStatus

record dirList =
  dl_files :: "dirEntry list"
  dl_size :: jsValue
  dl_cursor :: "string list option"

fun plusValue :: "jsValue \<Rightarrow> jsValue \<Rightarrow> jsValue" where
  "plusValue (Num a) (Num b) = Num (a + b)"
| "plusValue NoNumber _ = NoNumber"
| "plusValue _ NoNumber = NoNumber"
| "plusValue _ _ = NaN"

fun readDirLoop ::
  "readOptions \<Rightarrow> ((string list \<times> fileRecord) \<times> string list option) list \<Rightarrow> int \<times> nat \<Rightarrow>
   dirList \<Rightarrow> engine \<Rightarrow> dirList outcome \<times> engine" where
  "readDirLoop options [] tc res s = (Returns res, s)"
| "readDirLoop options (f # fs) tc res s =
     (case rateLimit (ro_maxDirEntriesPerSecond options) noEmit tc s of
        (Throws e, s1) \<Rightarrow> (Throws e, s1)
      | (Returns tc', s1) \<Rightarrow>
          (let filePath = fst (fst f); uri = pathToURIComponent filePath in
           case fileStatus s1 uri of
             Throws e \<Rightarrow> (Throws e, s1)
           | Returns status \<Rightarrow>
               (let (res', s2) =
                      (case status of
                         Some st \<Rightarrow>
                           (res\<lparr>dl_size :=
                                   (if fs_status st = Saving \<and> truthyValue (fs_progress st)
                                    then plusValue (dl_size res) (the (fs_progress st))
                                    else dl_size res),
                                 dl_files := dl_files res @ [DirStatus st]\<rparr>, s1)
                       | None \<Rightarrow>
                           (let ((file, strm), s') =
                                  contentData (snd (fst f)) (options\<lparr>ro_path := filePath\<rparr>) s1
                            in (res\<lparr>dl_size := plusBytes (Some (dl_size res)) (f_size (snd (fst f))),
                                     dl_files := dl_files res @ [DirFile file strm]\<rparr>, s'))) in
                if length (dl_files res') = maxPageSize \<and> ro_pagination options \<and> snd f \<noteq> None
                then (Returns (res'\<lparr>dl_cursor := snd f\<rparr>), s2)
                else readDirLoop options fs tc' res' s2)))"

definition readDir :: "readOptions \<Rightarrow> engine \<Rightarrow> dirList outcome \<times> engine" where
  "readDir options s =
     (if \<not> ro_validateAccess options (ro_path options)
      then (let (st, s1) = returnError (pathToURIComponent (ro_path options)) (ro_path options)
                             ''Forbidden'' s
            in (Returns \<lparr>dl_files = [DirStatus st], dl_size = Num 0, dl_cursor = None\<rparr>, s1))
      else (case initKv s of
              Throws e \<Rightarrow> (Throws e, s)
            | Returns _ \<Rightarrow>
                (let (now, s1) = dateNow s;
                     fs = pagedListIterator (filesPrefix s1 (ro_path options)) (ro_cursor options)
                 in case kvDo (KvList (FilesUnder (ro_path options))) s1 of
                      Throws e \<Rightarrow> (Throws e, s1)
                    | Returns _ \<Rightarrow>
                        readDirLoop options fs (now, 0)
                          \<lparr>dl_files = [], dl_size = Num 0, dl_cursor = None\<rparr> s1)))"

text \<open>
  \<open>setMetadata\<close> (mod.ts 395-411): it throws at metadata over 60 KiB, and what \<open>#initKv\<close>,
  the \<open>get\<close> and the \<open>set\<close> throw.
\<close>

definition setMetadata :: "string list \<Rightarrow> metadata \<Rightarrow> engine \<Rightarrow> unit outcome \<times> engine" where
  "setMetadata p metadata s =
     (if length metadata > 60 * 1024
      then (Throws (Error ''Metadata exceeds 60KB limit''), s)
      else (case initKv s of
              Throws e \<Rightarrow> (Throws e, s)
            | Returns _ \<Rightarrow>
                (case kvDo (KvGet (FileKey p)) s of
                   Throws e \<Rightarrow> (Throws e, s)
                 | Returns _ \<Rightarrow>
                     (case map_of (files s) p of
                        None \<Rightarrow> (Returns (), s)
                      | Some file \<Rightarrow>
                          (case kvDo (KvSet (FileKey p)) s of
                             Throws e \<Rightarrow> (Throws e, s)
                           | Returns _ \<Rightarrow>
                               (Returns (),
                                s\<lparr>files := AList.update p (file\<lparr>f_metadata := Some metadata\<rparr>)
                                              (files s)\<rparr>))))))"

text \<open>
  \<open>getMetadata\<close> (mod.ts 413-418), as a function of the store: the value it resolves to
  when the store answers \<open>#initKv\<close> and the \<open>get\<close>; \<open>None\<close> is \<open>undefined\<close>.
\<close>

definition getMetadata :: "string list \<Rightarrow> engine \<Rightarrow> metadata option" where
  "getMetadata p s = (case map_of (files s) p of None \<Rightarrow> None | Some file \<Rightarrow> f_metadata file)"

text \<open>
  An engine that has done nothing yet, on an empty substrate that serves every
  operation: its dictionaries are the object \<open>{}\<close>.
\<close>

definition newEngine :: "int list \<Rightarrow> engine" where
  "newEngine ticks =
     \<lparr>files = [], chunks = [], unresolved = [], kvFault = (\<lambda>_. None),
      clientsReqsMap = plainObject, savingFiles = plainObject, deletingFiles = plainObject,
      progressLog = [], clock = ticks, scheduledDeletes = []\<rparr>"

text \<open>The substrate that fails at one operation, with the error \<open>e\<close>, and serves the others.\<close>

definition failingAt :: "kvOp \<Rightarrow> jsError \<Rightarrow> kvOp \<Rightarrow> jsError option" where
  "failingAt op e = (\<lambda>asked. if asked = op then Some e else None)"

section \<open>Notions the theorems are stated with\<close>

text \<open>
  The chunks the chunker cuts a content into: the slices for a string or a byte array,
  and for a stream what the successive calls of \<open>#getChunkIter\<close> return, up to the call
  that reports the end (or throws).
\<close>

function readerChunks :: "rstream \<Rightarrow> bytes list \<times> jsError option" where
  "readerChunks reader =
     (case getChunkIter reader of
        Throws e \<Rightarrow> ([], Some e)
      | Returns (chunk, finished, reader') \<Rightarrow>
          if finished then ([chunk], None)
          else (case readerChunks reader' of (cs, e) \<Rightarrow> (chunk # cs, e)))"
  by pat_completeness auto
termination
proof (relation "measure streamSize", goal_cases)
  case 1
  show ?case by simp
next
  case (2 reader x chunk y finished reader')
  then have "getChunkIterLoop reader [] = Returns (chunk, False, reader')"
    by (simp add: getChunkIter_def)
  then show ?case
    using getChunkIterLoop_streamSize [of reader "[]" chunk False reader']
    by (simp add: chunkSize_def)
qed

declare readerChunks.simps [simp del]

definition contentChunks :: "content \<Rightarrow> bytes list" where
  "contentChunks c =
     (case c of
        Str text \<Rightarrow> toChunks (map of_char text)
      | Bytes arr \<Rightarrow> toChunks arr
      | Stream strm \<Rightarrow> fst (readerChunks (if rs_bytes strm then strm else createByteStream strm)))"

text \<open>
  The number of chunks the loops of \<open>#saveFromUint8Array\<close> and \<open>#saveFromReader\<close> put
  before they stop: they stop before a chunk when the bytes put so far exceed the cap.
\<close>

fun writtenCount :: "nat \<Rightarrow> nat \<Rightarrow> bytes list \<Rightarrow> nat" where
  "writtenCount cap size0 [] = 0"
| "writtenCount cap size0 (c # cs) =
     (if size0 > cap then 0 else Suc (writtenCount cap (size0 + length c) cs))"

text \<open>
  Every chunk key of the substrate has an index from 1 up to, and without,
  \<open>MAX_SAFE_INTEGER\<close>: the keys the engine writes, as long as a file has fewer chunks than
  that.
\<close>

definition chunkIndicesOk :: "engine \<Rightarrow> bool" where
  "chunkIndicesOk s =
     list_all (\<lambda>e. 1 \<le> snd (fst e) \<and> snd (fst e) < MAX_SAFE_INTEGER) (entries (chunks s))"

text \<open>
  Relations between the state before and after a step, for the proofs: the same state
  but for the clock and the log; the same but for these and the chunks; what a save
  loop has done after \<open>k\<close> chunks; what saving a content leaves; what a save that
  returned a file leaves.
\<close>

definition sameStore :: "engine \<Rightarrow> engine \<Rightarrow> bool" where
  "sameStore s s' \<longleftrightarrow>
     files s' = files s \<and> chunks s' = chunks s \<and> unresolved s' = unresolved s \<and>
     clientsReqsMap s' = clientsReqsMap s \<and> savingFiles s' = savingFiles s \<and>
     deletingFiles s' = deletingFiles s \<and> scheduledDeletes s' = scheduledDeletes s \<and>
     kvFault s' = kvFault s"

definition sameButChunks :: "engine \<Rightarrow> engine \<Rightarrow> bool" where
  "sameButChunks s s' \<longleftrightarrow>
     files s' = files s \<and> unresolved s' = unresolved s \<and>
     clientsReqsMap s' = clientsReqsMap s \<and> savingFiles s' = savingFiles s \<and>
     deletingFiles s' = deletingFiles s \<and> scheduledDeletes s' = scheduledDeletes s"

definition loopEffect ::
  "string \<Rightarrow> bytes list \<Rightarrow> nat \<Rightarrow> saveLoop \<Rightarrow> engine \<Rightarrow> saveLoop \<Rightarrow> engine \<Rightarrow> bool" where
  "loopEffect uri cs k l s l' s' \<longleftrightarrow>
     totalCount l' = totalCount l + k \<and>
     sizeBytes l' = sizeBytes l + length (concat (take k cs)) \<and>
     flags l' = flags l @ (if k < length cs then [''incomplete''] else []) \<and>
     map_of (chunks s') =
       (\<lambda>key. if fst key = uri \<and> totalCount l < snd key \<and> snd key \<le> totalCount l + k
               then Some (cs ! (snd key - totalCount l - 1)) else map_of (chunks s) key) \<and>
     files s' = files s \<and> unresolved s' = unresolved s \<and>
     clientsReqsMap s' = clientsReqsMap s \<and> deletingFiles s' = deletingFiles s \<and>
     scheduledDeletes s' = scheduledDeletes s \<and>
     (\<forall>u. u \<noteq> uri \<longrightarrow> savingFiles s' u = savingFiles s u)"

definition contentSaved ::
  "string \<Rightarrow> nat \<Rightarrow> bytes list \<Rightarrow> engine \<Rightarrow> string list \<times> nat \<Rightarrow> engine \<Rightarrow> bool" where
  "contentSaved uri cap cs s r s' \<longleftrightarrow>
     fst r = (if writtenCount cap 0 cs < length cs then [''incomplete''] else []) \<and>
     snd r = length (concat (take (writtenCount cap 0 cs) cs)) \<and>
     map_of (chunks s') =
       (\<lambda>key. if fst key = uri \<and> 1 \<le> snd key \<and> snd key \<le> writtenCount cap 0 cs
               then Some (cs ! (snd key - 1))
               else if fst key = uri \<and> writtenCount cap 0 cs < snd key \<and>
                       snd key < MAX_SAFE_INTEGER
               then None else map_of (chunks s) key) \<and>
     files s' = files s \<and> unresolved s' = unresolved s \<and>
     clientsReqsMap s' = clientsReqsMap s \<and> deletingFiles s' = deletingFiles s \<and>
     scheduledDeletes s' = scheduledDeletes s \<and>
     (\<forall>u. u \<noteq> uri \<longrightarrow> savingFiles s' u = savingFiles s u)"

definition savedAs :: "saveOptions \<Rightarrow> engine \<Rightarrow> fileRecord \<Rightarrow> engine \<Rightarrow> bool" where
  "savedAs options s f s' \<longleftrightarrow>
     savingFiles s (pathToURIComponent (so_path options)) = None \<and>
     deletingFiles s (pathToURIComponent (so_path options)) = None \<and>
     f = \<lparr>f_path = so_path options, f_URIComponent = pathToURIComponent (so_path options),
          f_metadata = Some (case so_metadata options of None \<Rightarrow> ''{}'' | Some m \<Rightarrow> m),
          f_flags = (if writtenCount (so_maxFileSizeBytes options) 0 (contentChunks (so_content options))
                        < length (contentChunks (so_content options))
                     then [''incomplete''] else []),
          f_size = length (concat (take
                     (writtenCount (so_maxFileSizeBytes options) 0 (contentChunks (so_content options)))
                     (contentChunks (so_content options))))\<rparr> \<and>
     map_of (chunks s') =
       (\<lambda>key. if fst key = pathToURIComponent (so_path options) \<and> 1 \<le> snd key \<and>
                  snd key \<le> writtenCount (so_maxFileSizeBytes options) 0
                               (contentChunks (so_content options))
               then Some (contentChunks (so_content options) ! (snd key - 1))
               else if fst key = pathToURIComponent (so_path options) \<and>
                       writtenCount (so_maxFileSizeBytes options) 0
                         (contentChunks (so_content options)) < snd key \<and>
                       snd key < MAX_SAFE_INTEGER
               then None else map_of (chunks s) key) \<and>
     map_of (files s') = (map_of (files s))(so_path options \<mapsto> f) \<and>
     savingFiles s' = deleteProperty (pathToURIComponent (so_path options)) (savingFiles s) \<and>
     deletingFiles s' = deletingFiles s"

text \<open>
  The bytes a content delivers: those of a string or of a byte array, and those a stream
  hands out before it closes, when it closes without an error (and, when it is not a byte
  stream, without a block of no bytes, at which the stream put around it fails).
\<close>

definition isStream :: "content \<Rightarrow> bool" where
  "isStream c = (case c of Stream _ \<Rightarrow> True | _ \<Rightarrow> False)"

definition delivers :: "content \<Rightarrow> bytes \<Rightarrow> bool" where
  "delivers c b =
     (case c of
        Str t \<Rightarrow> b = map of_char t
      | Bytes arr \<Rightarrow> b = arr
      | Stream strm \<Rightarrow>
          rs_failure strm = None \<and> (rs_bytes strm \<or> [] \<notin> set (rs_blocks strm)) \<and>
          b = concat (rs_blocks strm))"

text \<open>
  The checks of \<open>save\<close> that come before the cap of the client (mod.ts 184-229): the size
  of the metadata and the filter on the extension.
\<close>

definition metadataTooLarge :: "saveOptions \<Rightarrow> bool" where
  "metadataTooLarge options =
     (case so_metadata options of None \<Rightarrow> False | Some m \<Rightarrow> length m > 60 * 1024)"

definition extensionAllowed :: "saveOptions \<Rightarrow> bool" where
  "extensionAllowed options \<longleftrightarrow>
     so_allowedExtensions options = [] \<or>
     so_path options \<noteq> [] \<and>
     fileExtension (last (so_path options)) \<in> set (so_allowedExtensions options)"

text \<open>Every stored file record has its metadata.\<close>

definition metadataKept :: "engine \<Rightarrow> bool" where
  "metadataKept s = list_all (\<lambda>e. f_metadata (snd e) \<noteq> None) (entries (files s))"

declare natToString.simps [simp del]
declare pagedListIterator.simps [simp del]
declare getChunkIterLoop.simps [simp del]
declare saveReaderLoop.simps [simp del]
declare readStreamLoop.simps [simp del]

section \<open>The path codec: decoding what was encoded\<close>

lemma byte_of_lt: "byte_of c < 256"
  unfolding byte_of_def by (cases c) simp

lemma char_of_byte_of: "char_of (byte_of c) = c"
  unfolding byte_of_def by simp

lemma hexDigit_cases:
  "d < 16 \<Longrightarrow> byte_of (hexDigit d) = (if d < 10 then 48 + d else 55 + d)"
  unfolding hexDigit_def byte_of_def
  by (cases d rule: nat.exhaust; simp add: nth_Cons' less_Suc_eq_0_disj; (elim disjE; simp)?)

lemma hexVal_hexDigit: "d < 16 \<Longrightarrow> hexVal (hexDigit d) = Some d"
  unfolding hexVal_def Let_def by (simp add: hexDigit_cases)

lemma parse_hexOctet:
  "b < 256 \<Longrightarrow> parseHexOctet (hexDigit (b div 16)) (hexDigit (b mod 16)) = Some b"
  unfolding parseHexOctet_def by (simp add: hexVal_hexDigit less_mult_imp_div_less)

lemma unescaped_not_percent: "uriUnescaped c \<Longrightarrow> c \<noteq> CHR ''%''"
  unfolding uriUnescaped_def byte_of_def Let_def by auto

lemma unescaped_not_slash: "uriUnescaped c \<Longrightarrow> c \<noteq> CHR ''/''"
  unfolding uriUnescaped_def byte_of_def Let_def by auto

lemma unescaped_ascii: "uriUnescaped c \<Longrightarrow> byte_of c < 128"
  unfolding uriUnescaped_def byte_of_def Let_def by auto

lemma high_not_unescaped: "128 \<le> byte_of c \<Longrightarrow> \<not> uriUnescaped c"
  using unescaped_ascii [of c] by auto

lemma isCont_high: "isCont b \<Longrightarrow> 128 \<le> b"
  by (simp add: isCont_def)

lemma encodeChar_escaped:
  "\<not> uriUnescaped c \<Longrightarrow>
   encodeChar c @ t = CHR ''%'' # hexDigit (byte_of c div 16) # hexDigit (byte_of c mod 16) # t"
  unfolding encodeChar_def hexOctet_def by simp

lemma takeEscapes_encodeChar:
  "\<not> uriUnescaped c \<Longrightarrow>
   takeEscapes (Suc k) (encodeChar c @ t) =
     (case takeEscapes k t of None \<Rightarrow> None | Some (bs, r) \<Rightarrow> Some (byte_of c # bs, r))"
  by (simp add: encodeChar_escaped parse_hexOctet byte_of_lt)

lemma decode_escaped_head:
  "\<not> uriUnescaped c \<Longrightarrow>
   decodeURIComponent (encodeChar c @ t) =
     (let b = byte_of c; n = leadingOnes b in
      if n = 0 then map_option ((#) c) (decodeURIComponent t)
      else if n = 1 \<or> n > 4 then None
      else (case takeEscapes (n - 1) t of
              None \<Rightarrow> None
            | Some (bs, r) \<Rightarrow>
                if utf8CodePoint (b # bs)
                then map_option ((@) (map char_of (b # bs))) (decodeURIComponent r)
                else None))"
  by (simp add: encodeChar_escaped parse_hexOctet byte_of_lt char_of_byte_of Let_def)

lemma decode_unescaped_head:
  "uriUnescaped c \<Longrightarrow>
   decodeURIComponent (encodeChar c @ t) = map_option ((#) c) (decodeURIComponent t)"
  by (simp add: encodeChar_def unescaped_not_percent)

lemma encodeURIComponent_Cons:
  "encodeURIComponent (c # s) @ t = encodeChar c @ (encodeURIComponent s @ t)"
  by (simp add: encodeURIComponent_def)

lemma decode_encode_append:
  "utf8_ok s \<Longrightarrow>
   decodeURIComponent (encodeURIComponent s @ t) = map_option ((@) s) (decodeURIComponent t)"
proof (induction s rule: utf8_ok.induct)
  case 1
  show ?case by (simp add: encodeURIComponent_def option.map_ident)
next
  case (2 a s)
  let ?n = "leadingOnes (byte_of a)"
  consider (one) "?n = 0" | (two) "?n = 2" | (three) "?n = 3" | (four) "?n = 4"
    using "2.prems" by (auto simp: Let_def split: if_splits)
  then show ?case
  proof cases
    case one
    then have ok: "utf8_ok s" using "2.prems" by simp
    have IH: "decodeURIComponent (encodeURIComponent s @ t) =
              map_option ((@) s) (decodeURIComponent t)"
      using "2.IH"(1) [OF refl one ok] .
    show ?thesis
    proof (cases "uriUnescaped a")
      case True
      then show ?thesis
        by (simp add: encodeURIComponent_Cons decode_unescaped_head IH option.map_comp comp_def)
    next
      case False
      then show ?thesis using one
        by (simp add: encodeURIComponent_Cons decode_escaped_head IH option.map_comp comp_def)
    qed
  next
    case two
    then obtain b r where s: "s = b # r"
      and cp: "utf8CodePoint [byte_of a, byte_of b]" and ok: "utf8_ok r"
      using "2.prems" by (auto simp: Let_def split: list.splits)
    have na: "\<not> uriUnescaped a" and nb: "\<not> uriUnescaped b"
      using cp by (auto intro!: high_not_unescaped dest: isCont_high)
    have IH: "decodeURIComponent (encodeURIComponent r @ t) =
              map_option ((@) r) (decodeURIComponent t)"
      using "2.IH"(2) two s ok by simp
    show ?thesis using two cp
      by (simp add: s encodeURIComponent_Cons decode_escaped_head [OF na]
          takeEscapes_encodeChar [OF nb] IH option.map_comp comp_def char_of_byte_of
          del: utf8CodePoint.simps)
  next
    case three
    then obtain b c r where s: "s = b # c # r"
      and cp: "utf8CodePoint [byte_of a, byte_of b, byte_of c]" and ok: "utf8_ok r"
      using "2.prems" by (auto simp: Let_def split: list.splits)
    have na: "\<not> uriUnescaped a" and nb: "\<not> uriUnescaped b" and nc: "\<not> uriUnescaped c"
      using cp by (auto intro!: high_not_unescaped dest: isCont_high)
    have IH: "decodeURIComponent (encodeURIComponent r @ t) =
              map_option ((@) r) (decodeURIComponent t)"
      using "2.IH"(3) three s ok by simp
    show ?thesis using three cp
      by (simp add: s encodeURIComponent_Cons decode_escaped_head [OF na]
          takeEscapes_encodeChar [OF nb] takeEscapes_encodeChar [OF nc] numeral_3_eq_3
          IH option.map_comp comp_def char_of_byte_of del: utf8CodePoint.simps)
  next
    case four
    then obtain b c d r where s: "s = b # c # d # r"
      and cp: "utf8CodePoint [byte_of a, byte_of b, byte_of c, byte_of d]" and ok: "utf8_ok r"
      using "2.prems" by (auto simp: Let_def split: list.splits)
    have na: "\<not> uriUnescaped a" and nb: "\<not> uriUnescaped b" and nc: "\<not> uriUnescaped c"
      and nd: "\<not> uriUnescaped d"
      using cp by (auto intro!: high_not_unescaped dest: isCont_high)
    have IH: "decodeURIComponent (encodeURIComponent r @ t) =
              map_option ((@) r) (decodeURIComponent t)"
      using "2.IH"(4) four s ok by simp
    show ?thesis using four cp
      by (simp add: s encodeURIComponent_Cons decode_escaped_head [OF na]
          takeEscapes_encodeChar [OF nb] takeEscapes_encodeChar [OF nc]
          takeEscapes_encodeChar [OF nd] numeral_3_eq_3 eval_nat_numeral
          IH option.map_comp comp_def char_of_byte_of del: utf8CodePoint.simps)
  qed
qed

lemma decode_encode: "utf8_ok s \<Longrightarrow> decodeURIComponent (encodeURIComponent s) = Some s"
  using decode_encode_append [of s "[]"] by simp

lemma hexDigit_not_slash: "d < 16 \<Longrightarrow> hexDigit d \<noteq> CHR ''/''"
  using hexDigit_cases [of d] by (auto simp: byte_of_def split: if_splits)

lemma encodeChar_no_slash: "CHR ''/'' \<notin> set (encodeChar c)"
proof -
  have "byte_of c div 16 < 16" and "byte_of c mod 16 < 16"
    using byte_of_lt [of c] by (simp_all add: less_mult_imp_div_less)
  then have "hexDigit (byte_of c div 16) \<noteq> CHR ''/''" and "hexDigit (byte_of c mod 16) \<noteq> CHR ''/''"
    by (simp_all add: hexDigit_not_slash)
  then show ?thesis
    using unescaped_not_slash [of c] by (auto simp: encodeChar_def hexOctet_def)
qed

lemma encodeURIComponent_no_slash: "CHR ''/'' \<notin> set (encodeURIComponent s)"
  by (auto simp: encodeURIComponent_def encodeChar_no_slash)

lemma split_no_separator: "d \<notin> set x \<Longrightarrow> split d x = [x]"
  by (induction x) auto

lemma split_append_separator: "d \<notin> set x \<Longrightarrow> split d (x @ d # r) = x # split d r"
  by (induction x) auto

lemma split_join:
  "ps \<noteq> [] \<Longrightarrow> list_all (\<lambda>x. d \<notin> set x) ps \<Longrightarrow> split d (join [d] ps) = ps"
  by (induction "[d]" ps rule: join.induct)
     (simp_all add: split_no_separator split_append_separator)

lemma those_all_decode_encode:
  "list_all utf8_ok p \<Longrightarrow> those_all (map (decodeURIComponent \<circ> encodeURIComponent) p) = Some p"
  by (induction p) (simp_all add: decode_encode)

lemma decode_path_encode:
  assumes "wellFormedPath p"
  shows "URIComponentToPath (pathToURIComponent p) = Some (if p = [] then [[]] else p)"
proof (cases "p = []")
  case True
  then show ?thesis by (simp add: URIComponentToPath_def pathToURIComponent_def)
next
  case False
  have "split CHR ''/'' (join ''/'' (map encodeURIComponent p)) = map encodeURIComponent p"
    using False by (intro split_join) (simp_all add: list_all_iff encodeURIComponent_no_slash)
  then show ?thesis
    using assms False
    by (simp add: URIComponentToPath_def pathToURIComponent_def wellFormedPath_def
        those_all_decode_encode)
qed

text \<open>
  C8, as amended. For every non-empty path of well-formed strings, decoding the encoded
  path gives the path back, and two such paths that differ have different encodings.
  (The empty path is decoded as the path of one empty string, which has the same
  encoding.)
\<close>

theorem codec_round_trip:
  assumes "p \<noteq> []" and "wellFormedPath p" and "q \<noteq> []" and "wellFormedPath q"
  shows "URIComponentToPath (pathToURIComponent p) = Some p \<and>
         (p \<noteq> q \<longrightarrow> pathToURIComponent p \<noteq> pathToURIComponent q)"
proof -
  have p: "URIComponentToPath (pathToURIComponent p) = Some p"
    using decode_path_encode [OF assms(2)] assms(1) by simp
  have q: "URIComponentToPath (pathToURIComponent q) = Some q"
    using decode_path_encode [OF assms(4)] assms(3) by simp
  show ?thesis using p q by auto
qed

theorem codec_round_trip_witness:
  "URIComponentToPath (pathToURIComponent [''my dir'', ''a/b.txt'']) =
     Some [''my dir'', ''a/b.txt''] \<and>
   pathToURIComponent [''my dir'', ''a/b.txt''] \<noteq> pathToURIComponent [''my dir/a'', ''b.txt'']"
  using codec_round_trip [of "[''my dir'', ''a/b.txt'']" "[''my dir/a'', ''b.txt'']"]
  by (simp add: wellFormedPath_def leadingOnes_def byte_of_def)

theorem codec_empty_path_counterexample:
  "URIComponentToPath (pathToURIComponent []) = Some [''''] \<and>
   Some [''''] \<noteq> Some ([] :: string list) \<and>
   pathToURIComponent [] = pathToURIComponent [''''] \<and>
   ([] :: string list) \<noteq> ['''']"
  by (simp add: URIComponentToPath_def pathToURIComponent_def encodeURIComponent_def)

section \<open>Frames: what the helpers leave alone\<close>

lemma sameStore_refl: "sameStore s s"
  by (simp add: sameStore_def)

lemma sameStore_trans: "sameStore s s1 \<Longrightarrow> sameStore s1 s2 \<Longrightarrow> sameStore s s2"
  by (auto simp: sameStore_def)

lemma sameStore_fileStatus: "sameStore s s' \<Longrightarrow> fileStatus s' uri = fileStatus s uri"
  by (auto simp: sameStore_def fileStatus_def fileIsSaving_def fileIsDeleting_def
      split: option.splits)

lemma sameStore_getClientReqs: "sameStore s s' \<Longrightarrow> getClientReqs s' c = getClientReqs s c"
  by (auto simp: sameStore_def getClientReqs_def)

lemma sameStore_dateNow: "dateNow s = (t, s') \<Longrightarrow> sameStore s s'"
  by (auto simp: dateNow_def sameStore_def split: list.splits)

lemma sameStore_onFileProgress: "sameStore s (onFileProgress st s)"
  by (simp add: onFileProgress_def sameStore_def)

lemma sameStore_emitFileStatus: "emitFileStatus uri s = (r, s') \<Longrightarrow> sameStore s s'"
  by (auto simp: emitFileStatus_def sameStore_onFileProgress sameStore_refl split: outcome.splits)

lemma sameStore_emitRetract: "emitRetract uri n s = (r, s') \<Longrightarrow> sameStore s s'"
  by (auto simp: emitRetract_def sameStore_onFileProgress sameStore_refl
      split: outcome.splits option.splits)

lemma sameStore_noEmit: "noEmit s = (r, s') \<Longrightarrow> sameStore s s'"
  by (auto simp: noEmit_def sameStore_refl)

lemma sameStore_rateLimit:
  assumes "rateLimit limit emit tc s = (r, s')"
    and "\<And>a b c. emit a = (b, c) \<Longrightarrow> sameStore a c"
  shows "sameStore s s'"
proof -
  obtain now s1 where d1: "dateNow s = (now, s1)" by (cases "dateNow s")
  have s1: "sameStore s s1" using d1 by (rule sameStore_dateNow)
  show ?thesis
  proof (cases "now - fst tc < oneSecondDelayMillis")
    case True
    show ?thesis
    proof (cases "snd tc + 1 > limit")
      case False
      then show ?thesis using assms(1) d1 True s1 by (simp add: rateLimit_def Let_def)
    next
      case over: True
      obtain b s2 where e: "emit s1 = (b, s2)" by (cases "emit s1")
      have s2: "sameStore s1 s2" using e by (rule assms(2))
      obtain now' s3 where d2: "dateNow s2 = (now', s3)" by (cases "dateNow s2")
      have s3: "sameStore s2 s3" using d2 by (rule sameStore_dateNow)
      show ?thesis
        using assms(1) d1 True over e d2 s1 s2 s3
        by (cases b) (auto simp: rateLimit_def Let_def intro: sameStore_trans)
    qed
  next
    case False
    obtain now' s2 where d2: "dateNow s1 = (now', s2)" by (cases "dateNow s1")
    have s2: "sameStore s1 s2" using d2 by (rule sameStore_dateNow)
    obtain b s3 where e: "emit s2 = (b, s3)" by (cases "emit s2")
    have s3: "sameStore s2 s3" using e by (rule assms(2))
    show ?thesis
      using assms(1) d1 False e d2 s1 s2 s3
      by (cases b) (auto simp: rateLimit_def Let_def intro: sameStore_trans)
  qed
qed

lemma rateLimit_noEmit_returns: "\<exists>tc' s'. rateLimit limit noEmit tc s = (Returns tc', s')"
  by (auto simp: rateLimit_def noEmit_def Let_def split: prod.splits)

section \<open>The substrate: entries and the paged walk\<close>

lemma map_fst_entries: "map fst (entries al) = sort (remdups (map fst al))"
  by (simp add: entries_def comp_def)

lemma sorted_entries: "sorted (map fst (entries al))"
  by (simp add: map_fst_entries)

lemma distinct_entries: "distinct (map fst (entries al))"
  by (simp add: map_fst_entries)

lemma entries_value: "e \<in> set (entries al) \<Longrightarrow> map_of al (fst e) = Some (snd e)"
proof -
  assume "e \<in> set (entries al)"
  then obtain k where k: "k \<in> set (map fst al)" and e: "e = (k, the (map_of al k))"
    by (auto simp: entries_def)
  from k obtain v where "map_of al k = Some v"
    by (metis domD dom_map_of_conv_image_fst set_map)
  then show ?thesis using e by simp
qed

lemma entries_keys: "set (map fst (entries al)) = dom (map_of al)"
  by (simp add: map_fst_entries dom_map_of_conv_image_fst)

lemma filter_entries:
  "filter (\<lambda>e. P (fst e)) (entries al) =
   map (\<lambda>k. (k, the (map_of al k))) (filter P (sort (remdups (map fst al))))"
  by (simp add: entries_def filter_map comp_def)

lemma sorted_filter_entries: "sorted (map fst (filter (\<lambda>e. P (fst e)) (entries al)))"
proof -
  have "sorted (map (\<lambda>k. k) (filter P (sort (remdups (map fst al)))))"
    by (rule sorted_filter) simp
  then show ?thesis by (simp add: filter_entries comp_def)
qed

lemma distinct_filter_entries: "distinct (map fst (filter (\<lambda>e. P (fst e)) (entries al)))"
  by (simp add: filter_entries comp_def)

lemma set_filter_entries:
  "set (map fst (filter (\<lambda>e. P (fst e)) (entries al))) = {k \<in> dom (map_of al). P k}"
  by (auto simp: filter_entries comp_def dom_map_of_conv_image_fst)

text \<open>In a list sorted by distinct keys, what lies behind the key at a position is the rest.\<close>

lemma filter_greater_sorted:
  assumes "sorted (map fst xs)" and "distinct (map fst xs)" and "i < length xs"
  shows "filter (\<lambda>e. fst (xs ! i) < fst e) xs = drop (Suc i) xs"
  using assms
proof (induction xs arbitrary: i)
  case Nil
  then show ?case by simp
next
  case (Cons x xs)
  have xs_gt: "\<forall>e \<in> set xs. fst x < fst e"
    using Cons.prems(1,2) by (auto simp: less_le)
  show ?case
  proof (cases i)
    case 0
    have "filter (\<lambda>e. fst x < fst e) xs = xs"
      using xs_gt by (simp add: filter_id_conv)
    then show ?thesis using 0 by simp
  next
    case (Suc j)
    have j: "j < length xs" using Cons.prems(3) Suc by simp
    have "xs ! j \<in> set xs" using j by simp
    then have "fst x < fst (xs ! j)" using xs_gt by blast
    then have "\<not> fst (xs ! j) < fst x" by simp
    then show ?thesis
      using Cons.IH [OF _ _ j] Cons.prems(1,2) Suc by simp
  qed
qed

lemma afterCursor_sorted:
  "sorted (map fst es) \<Longrightarrow> sorted (map fst (afterCursor cursor es))"
  by (cases cursor) (simp_all add: afterCursor_def sorted_filter)

lemma afterCursor_distinct:
  "distinct (map fst es) \<Longrightarrow> distinct (map fst (afterCursor cursor es))"
  by (cases cursor) (simp_all add: afterCursor_def distinct_map_filter)

lemma afterCursor_again:
  assumes "e \<in> set (afterCursor cursor es)"
  shows "afterCursor (Some (fst e)) es = filter (\<lambda>x. fst e < fst x) (afterCursor cursor es)"
  using assms by (auto simp: afterCursor_def split: option.splits intro!: filter_cong)

lemma map_fst_tagPage: "map fst (tagPage page) = page"
proof (cases "length page = maxPageSize")
  case True
  then have "page \<noteq> []" by (auto simp: maxPageSize_def)
  then show ?thesis using True by (simp add: tagPage_def comp_def)
next
  case False
  then show ?thesis by (simp add: tagPage_def comp_def)
qed

lemma pagedListIterator_all:
  "sorted (map fst es) \<Longrightarrow> distinct (map fst es) \<Longrightarrow>
   map fst (pagedListIterator es cursor) = afterCursor cursor es"
proof (induction es cursor rule: pagedListIterator.induct)
  case (1 es cursor)
  let ?rest = "afterCursor cursor es"
  let ?page = "listPage es cursor maxPageSize"
  show ?case
  proof (cases "length ?page < maxPageSize")
    case True
    then have "?page = ?rest" by (simp add: listPage_def)
    then show ?thesis
      using True by (subst pagedListIterator.simps) (simp add: map_fst_tagPage Let_def)
  next
    case False
    then have len: "maxPageSize \<le> length ?rest" and page_len: "length ?page = maxPageSize"
      by (simp_all add: listPage_def)
    have pos: "0 < maxPageSize" by (simp add: maxPageSize_def)
    have "?page \<noteq> []" using page_len pos by auto
    then have "last ?page = ?page ! (length ?page - 1)" by (rule last_conv_nth)
    then have last: "last ?page = ?rest ! (maxPageSize - 1)"
      using page_len pos by (simp add: listPage_def)
    have mem: "?rest ! (maxPageSize - 1) \<in> set ?rest" using len pos by simp
    have "afterCursor (Some (fst (last ?page))) es =
          filter (\<lambda>x. fst (?rest ! (maxPageSize - 1)) < fst x) ?rest"
      using afterCursor_again [OF mem] last by simp
    also have "\<dots> = drop (Suc (maxPageSize - 1)) ?rest"
      using len pos
      by (intro filter_greater_sorted afterCursor_sorted afterCursor_distinct "1.prems") simp
    finally have rest: "afterCursor (Some (fst (last ?page))) es = drop maxPageSize ?rest"
      using pos by simp
    have IH: "map fst (pagedListIterator es (Some (fst (last ?page)))) = drop maxPageSize ?rest"
      using "1.IH" [OF refl False "1.prems"] rest by simp
    have "map fst (pagedListIterator es cursor) = ?page @ drop maxPageSize ?rest"
      using False IH by (subst pagedListIterator.simps) (simp add: map_fst_tagPage Let_def)
    then show ?thesis by (simp add: listPage_def)
  qed
qed

lemma pagedListIterator_entries:
  "map fst (pagedListIterator (filter (\<lambda>e. P (fst e)) (entries al)) None) =
   filter (\<lambda>e. P (fst e)) (entries al)"
  by (simp add: pagedListIterator_all sorted_filter_entries distinct_filter_entries
      afterCursor_def)

section \<open>The chunks of one file\<close>

lemma sorted_chunk_keys: "sorted (map (Pair (uri :: string)) [a..<b])"
  by (simp add: sorted_map)

lemma chunksPrefix_eq:
  assumes "\<And>i. map_of (chunks s) (uri, i) = (if 1 \<le> i \<and> i \<le> k then Some (f i) else None)"
  shows "chunksPrefix s uri = map (\<lambda>i. ((uri, i), f i)) [1..<Suc k]"
proof -
  let ?al = "chunks s"
  let ?P = "\<lambda>key :: string \<times> nat. fst key = uri"
  let ?keys = "filter ?P (sort (remdups (map fst ?al)))"
  have pre: "chunksPrefix s uri = map (\<lambda>key. (key, the (map_of ?al key))) ?keys"
    unfolding chunksPrefix_def by (rule filter_entries [where P = "?P"])
  have keys: "?keys = map fst (filter (\<lambda>e. ?P (fst e)) (entries ?al))"
    by (simp add: filter_entries [where P = "?P"] comp_def)
  have "set ?keys = {key \<in> dom (map_of ?al). ?P key}"
    unfolding keys by (rule set_filter_entries)
  also have "\<dots> = set (map (Pair uri) [1..<Suc k])"
    using assms by (auto simp: dom_def split: if_splits)
  finally have set_eq: "set ?keys = set (map (Pair uri) [1..<Suc k])" .
  have "sorted ?keys" unfolding keys by (rule sorted_filter_entries)
  moreover have "distinct ?keys" unfolding keys by (rule distinct_filter_entries)
  moreover have "sorted (map (Pair uri) [1..<Suc k])" by (rule sorted_chunk_keys)
  moreover have "distinct (map (Pair uri) [1..<Suc k])" by (simp add: distinct_map inj_on_def)
  ultimately have "?keys = map (Pair uri) [1..<Suc k]"
    using set_eq by (intro sorted_distinct_set_unique)
  then show ?thesis
    using assms by (auto simp: pre simp del: upt_Suc)
qed

lemma chunksRange_keys:
  "set (map fst (chunksRange s uri a b)) =
   {key \<in> dom (map_of (chunks s)). fst key = uri \<and> a \<le> snd key \<and> snd key < b}"
  unfolding chunksRange_def
  by (rule set_filter_entries [where P = "\<lambda>key. fst key = uri \<and> a \<le> snd key \<and> snd key < b"])

lemma chunksRange_paged:
  "map fst (pagedListIterator (chunksRange s uri a b) None) = chunksRange s uri a b"
  unfolding chunksRange_def
  by (rule pagedListIterator_entries [where P = "\<lambda>key. fst key = uri \<and> a \<le> snd key \<and> snd key < b"])

lemma chunksPrefix_paged:
  "map fst (pagedListIterator (chunksPrefix s uri) None) = chunksPrefix s uri"
  unfolding chunksPrefix_def
  by (rule pagedListIterator_entries [where P = "\<lambda>key. fst key = uri"])

section \<open>Retraction\<close>

lemma sameStore_sameButChunks: "sameStore s s' \<Longrightarrow> sameButChunks s s'"
  by (auto simp: sameStore_def sameButChunks_def)

lemma sameButChunks_trans: "sameButChunks s s1 \<Longrightarrow> sameButChunks s1 s2 \<Longrightarrow> sameButChunks s s2"
  by (auto simp: sameButChunks_def)

lemma sameStore_chunks: "sameStore s s' \<Longrightarrow> chunks s' = chunks s"
  by (simp add: sameStore_def)

lemma retractLoop_effect:
  "retractLoop uri params vs tc tot s = (Returns u, s') \<Longrightarrow>
   sameButChunks s s' \<and>
   map_of (chunks s') = (\<lambda>key. if key \<in> fst ` set vs then None else map_of (chunks s) key)"
proof (induction vs arbitrary: tc tot s)
  case Nil
  then show ?case by (simp add: sameButChunks_def)
next
  case (Cons v vs)
  let ?s1 = "s\<lparr>chunks := AList.delete (fst v) (chunks s)\<rparr>"
  let ?tot = "tot + length (snd v)"
  obtain r s2 where rl: "rateLimit (so_chunksPerSecond params) (emitRetract uri ?tot) tc ?s1 = (r, s2)"
    by (cases "rateLimit (so_chunksPerSecond params) (emitRetract uri ?tot) tc ?s1")
  have same: "sameStore ?s1 s2"
    using rl by (rule sameStore_rateLimit) (rule sameStore_emitRetract)
  from Cons.prems rl obtain tc' where r: "r = Returns tc'"
    and rest: "retractLoop uri params vs tc' ?tot s2 = (Returns u, s')"
    by (cases r) (auto simp: Let_def split: outcome.splits)
  have IH: "sameButChunks s2 s' \<and>
      map_of (chunks s') = (\<lambda>key. if key \<in> fst ` set vs then None else map_of (chunks s2) key)"
    using Cons.IH [OF rest] .
  have c2: "chunks s2 = AList.delete (fst v) (chunks s)"
    using same by (simp add: sameStore_def)
  have "sameButChunks s ?s1" by (simp add: sameButChunks_def)
  then have "sameButChunks s s'"
    using same IH by (blast intro: sameButChunks_trans sameStore_sameButChunks)
  moreover have "map_of (chunks s') =
      (\<lambda>key. if key \<in> fst ` set (v # vs) then None else map_of (chunks s) key)"
    using IH c2 by (auto simp: fun_eq_iff delete_conv)
  ultimately show ?case by simp
qed

lemma retract_effect:
  assumes "retract params n s = (Returns u, s')"
  shows "sameButChunks s s' \<and>
         map_of (chunks s') =
           (\<lambda>key. if fst key = pathToURIComponent (so_path params) \<and> n \<le> snd key \<and>
                      snd key < MAX_SAFE_INTEGER
                   then None else map_of (chunks s) key)"
proof -
  let ?uri = "pathToURIComponent (so_path params)"
  obtain now s1 where d: "dateNow s = (now, s1)" by (cases "dateNow s")
  have same: "sameStore s s1" using d by (rule sameStore_dateNow)
  have c1: "chunks s1 = chunks s" using same by (rule sameStore_chunks)
  let ?vs = "chunksRange s1 ?uri n MAX_SAFE_INTEGER"
  have loop: "retractLoop ?uri params ?vs (now, 0) 0 s1 = (Returns u, s')"
    using assms d by (simp add: retract_def Let_def chunksRange_paged split: outcome.splits)
  have eff: "sameButChunks s1 s' \<and>
      map_of (chunks s') = (\<lambda>key. if key \<in> fst ` set ?vs then None else map_of (chunks s1) key)"
    using retractLoop_effect [OF loop] .
  have keys: "fst ` set ?vs =
      {key \<in> dom (map_of (chunks s)). fst key = ?uri \<and> n \<le> snd key \<and> snd key < MAX_SAFE_INTEGER}"
    using chunksRange_keys [of s1 ?uri n MAX_SAFE_INTEGER] c1 by simp
  have "sameButChunks s s'"
    using same eff by (blast intro: sameButChunks_trans sameStore_sameButChunks)
  moreover have "map_of (chunks s') =
      (\<lambda>key. if fst key = ?uri \<and> n \<le> snd key \<and> snd key < MAX_SAFE_INTEGER
              then None else map_of (chunks s) key)"
    using eff keys c1 by (auto simp: fun_eq_iff dom_def)
  ultimately show ?thesis by simp
qed

section \<open>Slices\<close>

lemma chunkSize_pos: "0 < chunkSize"
  by (simp add: chunkSize_def)

lemma length_toChunks: "length (toChunks arr) = (length arr + chunkSize - 1) div chunkSize"
  by (simp add: toChunks_def)

lemma toChunks_nth:
  "i < length (toChunks arr) \<Longrightarrow> toChunks arr ! i = take chunkSize (drop (i * chunkSize) arr)"
  by (simp add: toChunks_def)

lemma toChunks_index_bound:
  assumes "i < length (toChunks arr)"
  shows "i * chunkSize < length arr"
proof -
  have "i < (length arr + chunkSize - 1) div chunkSize"
    using assms by (simp add: length_toChunks)
  then have "Suc i \<le> (length arr + chunkSize - 1) div chunkSize" by simp
  then have "Suc i * chunkSize \<le> length arr + chunkSize - 1"
    using chunkSize_pos by (simp only: less_eq_div_iff_mult_less_eq)
  then show ?thesis using chunkSize_pos by simp
qed

lemma toChunks_nth_length:
  assumes "i < length (toChunks arr)"
  shows "length (toChunks arr ! i) = min chunkSize (length arr - i * chunkSize)"
  using assms by (simp add: toChunks_nth)

lemma toChunks_nonempty: "c \<in> set (toChunks arr) \<Longrightarrow> c \<noteq> []"
proof -
  assume "c \<in> set (toChunks arr)"
  then obtain i where i: "i < length (toChunks arr)" and c: "c = toChunks arr ! i"
    by (auto simp: in_set_conv_nth)
  have "0 < length c"
    using toChunks_index_bound [OF i] chunkSize_pos c toChunks_nth_length [OF i] by simp
  then show ?thesis by auto
qed

lemma toChunks_chunk_le: "c \<in> set (toChunks arr) \<Longrightarrow> length c \<le> chunkSize"
  by (auto simp: toChunks_def)

lemma concat_take_toChunks:
  "k \<le> length (toChunks arr) \<Longrightarrow> concat (take k (toChunks arr)) = take (k * chunkSize) arr"
proof (induction k)
  case 0
  then show ?case by simp
next
  case (Suc k)
  then have k: "k < length (toChunks arr)" by simp
  have "concat (take (Suc k) (toChunks arr)) =
        concat (take k (toChunks arr)) @ toChunks arr ! k"
    using k by (simp add: take_Suc_conv_app_nth)
  also have "\<dots> = take (k * chunkSize) arr @ take chunkSize (drop (k * chunkSize) arr)"
    using Suc k by (simp add: toChunks_nth)
  also have "\<dots> = take (k * chunkSize + chunkSize) arr"
    by (simp add: take_add)
  finally show ?case by (simp add: add.commute)
qed

lemma concat_toChunks: "concat (toChunks arr) = arr"
proof -
  have "length arr \<le> length (toChunks arr) * chunkSize"
  proof -
    have "length arr + chunkSize - 1 < ((length arr + chunkSize - 1) div chunkSize + 1) * chunkSize"
      using chunkSize_pos by (metis add.commute div_less_iff_less_mult less_add_one mult.commute)
    then show ?thesis using chunkSize_pos by (simp add: length_toChunks)
  qed
  then show ?thesis
    using concat_take_toChunks [of "length (toChunks arr)" arr] by simp
qed

section \<open>How many chunks the cap lets through\<close>

lemma writtenCount_le: "writtenCount cap size0 cs \<le> length cs"
  by (induction cs arbitrary: size0) auto

lemma writtenCount_within:
  "i < writtenCount cap size0 cs \<Longrightarrow> size0 + length (concat (take i cs)) \<le> cap"
proof (induction cs arbitrary: size0 i)
  case Nil
  then show ?case by simp
next
  case (Cons c cs)
  then have le: "size0 \<le> cap" by (auto split: if_splits)
  show ?case
  proof (cases i)
    case 0
    then show ?thesis using le by simp
  next
    case (Suc j)
    then have "j < writtenCount cap (size0 + length c) cs"
      using Cons.prems le by simp
    then show ?thesis using Cons.IH [of j "size0 + length c"] Suc by (simp add: add.assoc)
  qed
qed

lemma writtenCount_stopped:
  "writtenCount cap size0 cs < length cs \<Longrightarrow>
   cap < size0 + length (concat (take (writtenCount cap size0 cs) cs))"
proof (induction cs arbitrary: size0)
  case Nil
  then show ?case by simp
next
  case (Cons c cs)
  show ?case
  proof (cases "size0 > cap")
    case True
    then show ?thesis by simp
  next
    case False
    then have "writtenCount cap (size0 + length c) cs < length cs"
      using Cons.prems by simp
    then show ?thesis using Cons.IH [of "size0 + length c"] False by (simp add: add.assoc)
  qed
qed

lemma writtenCount_all:
  "size0 + length (concat cs) \<le> cap \<Longrightarrow> writtenCount cap size0 cs = length cs"
  by (induction cs arbitrary: size0) (auto simp: add.assoc)

section \<open>The save loop\<close>

lemma putChunk_break:
  "putChunk uri params c l s = (Returns None, s') \<Longrightarrow>
   s' = s \<and> so_maxFileSizeBytes params < sizeBytes l"
  by (auto simp: putChunk_def Let_def split: if_splits prod.splits outcome.splits)

lemma putChunk_put:
  assumes "putChunk uri params c l s = (Returns (Some l'), s')"
  shows "sizeBytes l \<le> so_maxFileSizeBytes params \<and>
         sizeBytes l' = sizeBytes l + length c \<and> totalCount l' = totalCount l + 1 \<and>
         flags l' = flags l \<and>
         sameStore (s\<lparr>chunks := AList.update (uri, totalCount l + 1) c (chunks s),
                      savingFiles := (savingFiles s)(uri \<mapsto> Num (sizeBytes l + length c))\<rparr>) s'"
proof -
  let ?s2 = "s\<lparr>chunks := AList.update (uri, totalCount l + 1) c (chunks s),
               savingFiles := (savingFiles s)(uri \<mapsto> Num (sizeBytes l + length c))\<rparr>"
  have le: "sizeBytes l \<le> so_maxFileSizeBytes params"
    using assms by (auto simp: putChunk_def split: if_splits outcome.splits)
  obtain r s3 where rl:
    "rateLimit (so_chunksPerSecond params) (emitFileStatus uri) (windowStart l, chunksCount l) ?s2 = (r, s3)"
    by (cases "rateLimit (so_chunksPerSecond params) (emitFileStatus uri)
                 (windowStart l, chunksCount l) ?s2")
  have same: "sameStore ?s2 s3"
    using rl by (rule sameStore_rateLimit) (rule sameStore_emitFileStatus)
  show ?thesis
    using assms le rl same
    by (cases r) (auto simp: putChunk_def Let_def split: outcome.splits)
qed

lemma loopEffect_none: "loopEffect uri [] 0 l s l s"
  by (auto simp: loopEffect_def fun_eq_iff)

lemma loopEffect_break: "loopEffect uri (c # cs) 0 l s (markIncomplete l) s"
  by (auto simp: loopEffect_def markIncomplete_def fun_eq_iff)

lemma loopEffect_step:
  assumes put: "sizeBytes l1 = sizeBytes l + length c" "totalCount l1 = totalCount l + 1"
      "flags l1 = flags l"
      "sameStore (s\<lparr>chunks := AList.update (uri, totalCount l + 1) c (chunks s),
                    savingFiles := (savingFiles s)(uri \<mapsto> Num (sizeBytes l + length c))\<rparr>) s1"
    and rest: "loopEffect uri cs k l1 s1 l' s'"
  shows "loopEffect uri (c # cs) (Suc k) l s l' s'"
proof -
  have c1: "map_of (chunks s1) = (map_of (chunks s))((uri, totalCount l + 1) \<mapsto> c)"
    using put(4) by (simp add: sameStore_def update_conv')
  have chunks: "map_of (chunks s') =
       (\<lambda>key. if fst key = uri \<and> totalCount l < snd key \<and> snd key \<le> totalCount l + Suc k
               then Some ((c # cs) ! (snd key - totalCount l - 1)) else map_of (chunks s) key)"
  proof
    fix key :: "string \<times> nat"
    obtain u i where key: "key = (u, i)" by (cases key)
    show "map_of (chunks s') key =
       (if fst key = uri \<and> totalCount l < snd key \<and> snd key \<le> totalCount l + Suc k
        then Some ((c # cs) ! (snd key - totalCount l - 1)) else map_of (chunks s) key)"
    proof (cases "u = uri \<and> totalCount l < i \<and> i \<le> totalCount l + Suc k")
      case False
      then show ?thesis
        using rest put(2) c1 key by (auto simp: loopEffect_def)
    next
      case True
      show ?thesis
      proof (cases "i = totalCount l + 1")
        case first: True
        then show ?thesis using rest put(2) c1 key True by (simp add: loopEffect_def)
      next
        case later: False
        then have "totalCount l1 < i" and "i \<le> totalCount l1 + k"
          using True put(2) by simp_all
        moreover have "i - totalCount l - 1 = Suc (i - totalCount l1 - 1)"
        proof -
          have "totalCount l < i" and "i \<noteq> totalCount l + 1" using True later by simp_all
          then show ?thesis using put(2) by arith
        qed
        ultimately show ?thesis
          using rest key True by (simp add: loopEffect_def)
      qed
    qed
  qed
  have other: "files s1 = files s" "unresolved s1 = unresolved s"
      "clientsReqsMap s1 = clientsReqsMap s" "deletingFiles s1 = deletingFiles s"
      "scheduledDeletes s1 = scheduledDeletes s"
      "\<forall>u. u \<noteq> uri \<longrightarrow> savingFiles s1 u = savingFiles s u"
    using put(4) by (simp_all add: sameStore_def)
  show ?thesis
    unfolding loopEffect_def
    using rest put(1,2,3) chunks other
    by (simp add: loopEffect_def add.assoc)
qed

lemma saveChunksLoop_effect:
  "saveChunksLoop uri params cs l s = (Returns l', s') \<Longrightarrow>
   loopEffect uri cs (writtenCount (so_maxFileSizeBytes params) (sizeBytes l) cs) l s l' s'"
proof (induction cs arbitrary: l s)
  case Nil
  then show ?case by (simp add: loopEffect_none)
next
  case (Cons c cs)
  obtain r s1 where pc: "putChunk uri params c l s = (r, s1)"
    by (cases "putChunk uri params c l s")
  show ?case
  proof (cases r)
    case (Throws e)
    then show ?thesis using Cons.prems pc by simp
  next
    case (Returns x)
    show ?thesis
    proof (cases x)
      case None
      then have "s1 = s" and "so_maxFileSizeBytes params < sizeBytes l"
        using putChunk_break pc Returns by blast+
      then show ?thesis
        using Cons.prems pc Returns None by (auto simp: loopEffect_break)
    next
      case (Some l1)
      have put: "sizeBytes l \<le> so_maxFileSizeBytes params \<and>
         sizeBytes l1 = sizeBytes l + length c \<and> totalCount l1 = totalCount l + 1 \<and>
         flags l1 = flags l \<and>
         sameStore (s\<lparr>chunks := AList.update (uri, totalCount l + 1) c (chunks s),
                      savingFiles := (savingFiles s)(uri \<mapsto> Num (sizeBytes l + length c))\<rparr>) s1"
        using putChunk_put pc Returns Some by blast
      have rest: "saveChunksLoop uri params cs l1 s1 = (Returns l', s')"
        using Cons.prems pc Returns Some by simp
      have "loopEffect uri cs (writtenCount (so_maxFileSizeBytes params) (sizeBytes l1) cs) l1 s1 l' s'"
        using Cons.IH [OF rest] .
      then have "loopEffect uri (c # cs)
          (Suc (writtenCount (so_maxFileSizeBytes params) (sizeBytes l1) cs)) l s l' s'"
        using put by (intro loopEffect_step) simp_all
      then show ?thesis using put by simp
    qed
  qed
qed

section \<open>The chunks a content is cut into\<close>

lemma saveReaderLoop_effect:
  "saveReaderLoop uri params reader l s = (Returns l', s') \<Longrightarrow>
   loopEffect uri (fst (readerChunks reader))
     (writtenCount (so_maxFileSizeBytes params) (sizeBytes l) (fst (readerChunks reader))) l s l' s'"
proof (induction uri params reader l s rule: saveReaderLoop.induct)
  case (1 uri params reader l s)
  show ?case
  proof (cases "getChunkIter reader")
    case (Throws e)
    then show ?thesis using "1.prems" by (simp add: saveReaderLoop.simps)
  next
    case (Returns x)
    obtain chunk finished reader' where x: "x = (chunk, finished, reader')" by (cases x)
    obtain r s1 where pc: "putChunk uri params chunk l s = (r, s1)"
      by (cases "putChunk uri params chunk l s")
    obtain cs e where rc: "readerChunks reader' = (cs, e)" by (cases "readerChunks reader'")
    have chunks: "fst (readerChunks reader) = (if finished then [chunk] else chunk # cs)"
      using Returns x rc by (simp add: readerChunks.simps [of reader])
    show ?thesis
    proof (cases r)
      case (Throws e')
      then show ?thesis using "1.prems" Returns x pc by (simp add: saveReaderLoop.simps)
    next
      case res: (Returns y)
      show ?thesis
      proof (cases y)
        case None
        then have "s1 = s" and "so_maxFileSizeBytes params < sizeBytes l"
          using putChunk_break pc res by blast+
        moreover have "l' = markIncomplete l \<and> s' = s1"
          using "1.prems" Returns x pc res None by (simp add: saveReaderLoop.simps)
        ultimately show ?thesis
          using chunks by (auto simp: loopEffect_break)
      next
        case (Some l1)
        have put: "sizeBytes l \<le> so_maxFileSizeBytes params \<and>
           sizeBytes l1 = sizeBytes l + length chunk \<and> totalCount l1 = totalCount l + 1 \<and>
           flags l1 = flags l \<and>
           sameStore (s\<lparr>chunks := AList.update (uri, totalCount l + 1) chunk (chunks s),
                        savingFiles := (savingFiles s)(uri \<mapsto> Num (sizeBytes l + length chunk))\<rparr>) s1"
          using putChunk_put pc res Some by blast
        show ?thesis
        proof (cases finished)
          case True
          then have "l' = l1 \<and> s' = s1"
            using "1.prems" Returns x pc res Some by (simp add: saveReaderLoop.simps)
          then have "loopEffect uri [] 0 l1 s1 l' s'" by (simp add: loopEffect_none)
          then have "loopEffect uri [chunk] (Suc 0) l s l' s'"
            using put by (intro loopEffect_step) simp_all
          then show ?thesis using chunks True put by simp
        next
          case False
          then have rest: "saveReaderLoop uri params reader' l1 s1 = (Returns l', s')"
            using "1.prems" Returns x pc res Some by (simp add: saveReaderLoop.simps)
          have "loopEffect uri (fst (readerChunks reader'))
                  (writtenCount (so_maxFileSizeBytes params) (sizeBytes l1)
                     (fst (readerChunks reader'))) l1 s1 l' s'"
            using "1.IH" [OF Returns x [symmetric] refl pc [symmetric] res Some False rest] .
          then have "loopEffect uri (chunk # cs)
                  (Suc (writtenCount (so_maxFileSizeBytes params) (sizeBytes l1) cs)) l s l' s'"
            using put rc by (intro loopEffect_step) simp_all
          then show ?thesis using chunks False put by simp
        qed
      qed
    qed
  qed
qed

section \<open>What saving a content leaves\<close>

lemma finishSave_effect:
  assumes "finishSave uri params l s = (Returns r, s')"
    and "uri = pathToURIComponent (so_path params)"
  shows "r = (flags l, sizeBytes l) \<and> sameButChunks s s' \<and>
         map_of (chunks s') =
           (\<lambda>key. if fst key = uri \<and> totalCount l + 1 \<le> snd key \<and> snd key < MAX_SAFE_INTEGER
                   then None else map_of (chunks s) key)"
proof -
  obtain q s1 where rt: "retract params (totalCount l + 1) s = (q, s1)"
    by (cases "retract params (totalCount l + 1) s")
  from assms(1) rt obtain u where q: "q = Returns u"
    by (cases q) (auto simp: finishSave_def)
  have eff: "sameButChunks s s1 \<and>
         map_of (chunks s1) =
           (\<lambda>key. if fst key = uri \<and> totalCount l + 1 \<le> snd key \<and> snd key < MAX_SAFE_INTEGER
                   then None else map_of (chunks s) key)"
    using retract_effect [of params "totalCount l + 1" s u s1] rt q assms(2) by simp
  have "r = (flags l, sizeBytes l) \<and> sameStore s1 s'"
  proof (cases "''incomplete'' \<in> set (flags l)")
    case True
    then show ?thesis
      using assms(1) rt q by (auto simp: finishSave_def sameStore_onFileProgress)
  next
    case False
    obtain e s2 where em: "emitFileStatus uri s1 = (e, s2)" by (cases "emitFileStatus uri s1")
    have "sameStore s1 s2" using em by (rule sameStore_emitFileStatus)
    then show ?thesis
      using assms(1) rt q False em by (cases e) (auto simp: finishSave_def)
  qed
  then show ?thesis
    using eff by (auto simp: sameStore_def sameButChunks_def)
qed

lemma contentSaved_intro:
  assumes loop: "loopEffect uri cs (writtenCount cap 0 cs) l0 s1 l s2"
    and l0: "sizeBytes l0 = 0" "totalCount l0 = 0" "flags l0 = []"
    and start: "sameStore s s1"
    and fin: "finishSave uri params l s2 = (Returns r, s')"
    and uri: "uri = pathToURIComponent (so_path params)"
  shows "contentSaved uri cap cs s r s'"
proof -
  let ?k = "writtenCount cap 0 cs"
  have f: "r = (flags l, sizeBytes l) \<and> sameButChunks s2 s' \<and>
         map_of (chunks s') =
           (\<lambda>key. if fst key = uri \<and> totalCount l + 1 \<le> snd key \<and> snd key < MAX_SAFE_INTEGER
                   then None else map_of (chunks s2) key)"
    using finishSave_effect [OF fin uri] .
  have tc: "totalCount l = ?k" and sz: "sizeBytes l = length (concat (take ?k cs))"
    and fl: "flags l = (if ?k < length cs then [''incomplete''] else [])"
    using loop l0 by (simp_all add: loopEffect_def)
  have c2: "map_of (chunks s2) =
       (\<lambda>key. if fst key = uri \<and> 0 < snd key \<and> snd key \<le> ?k
               then Some (cs ! (snd key - 1)) else map_of (chunks s) key)"
    using loop l0 start by (auto simp: loopEffect_def sameStore_def fun_eq_iff)
  have chunks: "map_of (chunks s') =
       (\<lambda>key. if fst key = uri \<and> 1 \<le> snd key \<and> snd key \<le> ?k
               then Some (cs ! (snd key - 1))
               else if fst key = uri \<and> ?k < snd key \<and> snd key < MAX_SAFE_INTEGER
               then None else map_of (chunks s) key)"
    using f c2 tc by (auto simp: fun_eq_iff)
  have frame: "files s' = files s" "unresolved s' = unresolved s"
     "clientsReqsMap s' = clientsReqsMap s" "deletingFiles s' = deletingFiles s"
     "scheduledDeletes s' = scheduledDeletes s"
     "\<forall>u. u \<noteq> uri \<longrightarrow> savingFiles s' u = savingFiles s u"
    using f loop start by (auto simp: loopEffect_def sameStore_def sameButChunks_def)
  show ?thesis
    unfolding contentSaved_def using f sz fl chunks frame by simp
qed

lemma saveFromUint8Array_effect:
  assumes "saveFromUint8Array uri params arr s = (Returns r, s')"
    and "uri = pathToURIComponent (so_path params)"
  shows "contentSaved uri (so_maxFileSizeBytes params) (toChunks arr) s r s'"
proof -
  obtain now s1 where d: "dateNow s = (now, s1)" by (cases "dateNow s")
  let ?l0 = "\<lparr>sizeBytes = 0, totalCount = 0, windowStart = now, chunksCount = 0, flags = []\<rparr>"
  obtain q s2 where lp: "saveChunksLoop uri params (toChunks arr) ?l0 s1 = (q, s2)"
    by (cases "saveChunksLoop uri params (toChunks arr) ?l0 s1")
  from assms(1) d lp obtain l where q: "q = Returns l"
    and fin: "finishSave uri params l s2 = (Returns r, s')"
    by (cases q) (auto simp: saveFromUint8Array_def)
  have "loopEffect uri (toChunks arr)
          (writtenCount (so_maxFileSizeBytes params) (sizeBytes ?l0) (toChunks arr)) ?l0 s1 l s2"
    using lp q by (intro saveChunksLoop_effect) simp
  then show ?thesis
    using d fin assms(2)
    by (intro contentSaved_intro [where ?l0.0 = ?l0 and l = l and ?s1.0 = s1 and ?s2.0 = s2])
       (simp_all add: sameStore_dateNow)
qed

lemma saveFromReader_effect:
  assumes "saveFromReader uri params strm s = (Returns r, s')"
    and "uri = pathToURIComponent (so_path params)"
  shows "contentSaved uri (so_maxFileSizeBytes params) (contentChunks (Stream strm)) s r s'"
proof -
  let ?reader = "if rs_bytes strm then strm else createByteStream strm"
  obtain now s1 where d: "dateNow s = (now, s1)" by (cases "dateNow s")
  let ?l0 = "\<lparr>sizeBytes = 0, totalCount = 0, windowStart = now, chunksCount = 0, flags = []\<rparr>"
  obtain q s2 where lp: "saveReaderLoop uri params ?reader ?l0 s1 = (q, s2)"
    by (cases "saveReaderLoop uri params ?reader ?l0 s1")
  from assms(1) d lp obtain l where q: "q = Returns l"
    and fin: "finishSave uri params l s2 = (Returns r, s')"
    by (cases q) (auto simp: saveFromReader_def)
  have "loopEffect uri (fst (readerChunks ?reader))
          (writtenCount (so_maxFileSizeBytes params) (sizeBytes ?l0) (fst (readerChunks ?reader)))
          ?l0 s1 l s2"
    using lp q by (intro saveReaderLoop_effect) simp
  then show ?thesis
    using d fin assms(2)
    by (intro contentSaved_intro [where ?l0.0 = ?l0 and l = l and ?s1.0 = s1 and ?s2.0 = s2])
       (simp_all add: sameStore_dateNow contentChunks_def)
qed

lemma saveContent_effect:
  assumes "saveContent uri params s = (Returns r, s')"
    and "uri = pathToURIComponent (so_path params)"
  shows "contentSaved uri (so_maxFileSizeBytes params) (contentChunks (so_content params)) s r s'"
proof (cases "so_content params")
  case (Str t)
  then show ?thesis
    using assms saveFromUint8Array_effect [of uri params "map of_char t" s r s']
    by (simp add: saveContent_def contentChunks_def)
next
  case (Bytes arr)
  then show ?thesis
    using assms saveFromUint8Array_effect [of uri params arr s r s']
    by (simp add: saveContent_def contentChunks_def)
next
  case (Stream strm)
  then show ?thesis
    using assms saveFromReader_effect [of uri params strm s r s']
    by (simp add: saveContent_def)
qed

section \<open>A save that went through\<close>

lemma fileStatus_None:
  "fileStatus s uri = Returns None \<longleftrightarrow> savingFiles s uri = None \<and> deletingFiles s uri = None"
  by (auto simp: fileStatus_def fileIsSaving_def fileIsDeleting_def split: option.splits)

lemma save_reaches_guard:
  assumes "save options s = (Returns (SavedFile f), s')"
  shows "fileStatus s (pathToURIComponent (so_path options)) = Returns None \<and>
         saveGuarded (pathToURIComponent (so_path options)) options s = (Returns (SavedFile f), s')"
  using assms
  by (auto simp: save_def Let_def returnError_def
      split: outcome.splits option.splits if_splits)

lemma startSaving_fields:
  assumes "startSaving options s = (r, s1)"
  shows "chunks s1 = chunks s" "files s1 = files s" "deletingFiles s1 = deletingFiles s"
    "scheduledDeletes s1 = scheduledDeletes s" "progressLog s1 = progressLog s"
    "kvFault s1 = kvFault s"
    "savingFiles s1 = (savingFiles s)(pathToURIComponent (so_path options) \<mapsto> Num 0)"
    "clientsReqsMap s1 = clientsReqsMap (incrementClientIdReq (so_clientId options) s)"
  using assms
  by (auto simp: startSaving_def Let_def incrementClientIdReq_def split: outcome.splits)

lemma endSaving_fields:
  assumes "endSaving options resolved s = (Returns u, s')"
  shows "chunks s' = chunks s" "files s' = files s" "deletingFiles s' = deletingFiles s"
    "scheduledDeletes s' = scheduledDeletes s" "progressLog s' = progressLog s"
    "kvFault s' = kvFault s"
    "savingFiles s' = deleteProperty (pathToURIComponent (so_path options)) (savingFiles s)"
  using assms
  by (auto simp: endSaving_def Let_def decrementClientIdReq_def split: outcome.splits if_splits)

lemma saveGuarded_success:
  assumes "saveGuarded uri options s = (Returns (SavedFile f), s')"
  shows "\<exists>s1. startSaving options s = (Returns (), s1) \<and> saveTry uri options s1 = (Returns f, s')"
  using assms
  by (auto simp: saveGuarded_def saveCatch_def Let_def returnError_def
      split: outcome.splits prod.splits if_splits)

lemma saveTry_success:
  assumes "saveTry uri options s1 = (Returns f, s')"
  shows "\<exists>fl sz s2.
           saveContent uri options s1 = (Returns (fl, sz), s2) \<and>
           f = \<lparr>f_path = so_path options, f_URIComponent = uri,
                 f_metadata = Some (case so_metadata options of None \<Rightarrow> ''{}'' | Some m \<Rightarrow> m),
                 f_flags = fl, f_size = sz\<rparr> \<and>
           endSaving options True
             (s2\<lparr>files := AList.update (so_path options) f (files s2)\<rparr>) = (Returns (), s')"
  using assms
  by (auto simp: saveTry_def Let_def split: outcome.splits prod.splits)

lemma save_success:
  assumes "save options s = (Returns (SavedFile f), s')"
  shows "savedAs options s f s'"
proof -
  let ?uri = "pathToURIComponent (so_path options)"
  have idle: "savingFiles s ?uri = None" "deletingFiles s ?uri = None"
    and guard: "saveGuarded ?uri options s = (Returns (SavedFile f), s')"
    using save_reaches_guard [OF assms] by (simp_all add: fileStatus_None)
  obtain s1 where st: "startSaving options s = (Returns (), s1)"
    and stry: "saveTry ?uri options s1 = (Returns f, s')"
    using saveGuarded_success [OF guard] by blast
  have s1: "chunks s1 = chunks s" "files s1 = files s" "deletingFiles s1 = deletingFiles s"
    "scheduledDeletes s1 = scheduledDeletes s"
    "savingFiles s1 = (savingFiles s)(?uri \<mapsto> Num 0)"
    using startSaving_fields [OF st] by simp_all
  obtain fl sz s2 where sc: "saveContent ?uri options s1 = (Returns (fl, sz), s2)"
    and f: "f = \<lparr>f_path = so_path options, f_URIComponent = ?uri,
                 f_metadata = Some (case so_metadata options of None \<Rightarrow> ''{}'' | Some m \<Rightarrow> m),
                 f_flags = fl, f_size = sz\<rparr>"
    and en: "endSaving options True
               (s2\<lparr>files := AList.update (so_path options) f (files s2)\<rparr>) = (Returns (), s')"
    using saveTry_success [OF stry] by blast
  have cs: "contentSaved ?uri (so_maxFileSizeBytes options) (contentChunks (so_content options))
              s1 (fl, sz) s2"
    using saveContent_effect [of ?uri options s1 "(fl, sz)" s2] sc by simp
  have end_fields: "chunks s' = chunks s2" "deletingFiles s' = deletingFiles s2"
    "files s' = AList.update (so_path options) f (files s2)"
    "savingFiles s' = deleteProperty ?uri (savingFiles s2)"
    using endSaving_fields [OF en] by simp_all
  have files2: "files s2 = files s"
    and sv2: "\<forall>u. u \<noteq> ?uri \<longrightarrow> savingFiles s2 u = savingFiles s u"
    using cs s1 by (simp_all add: contentSaved_def)
  have saving: "savingFiles s' = deleteProperty ?uri (savingFiles s)"
    using end_fields(4) sv2 by (auto simp: fun_eq_iff deleteProperty_def)
  have del: "deletingFiles s' = deletingFiles s"
    using cs end_fields s1 by (simp add: contentSaved_def)
  let ?cs = "contentChunks (so_content options)"
  let ?k = "writtenCount (so_maxFileSizeBytes options) 0 ?cs"
  have fl: "fl = (if ?k < length ?cs then [''incomplete''] else [])"
    and sz: "sz = length (concat (take ?k ?cs))"
    using cs by (simp_all add: contentSaved_def)
  have "map_of (chunks s2) =
       (\<lambda>key. if fst key = ?uri \<and> 1 \<le> snd key \<and> snd key \<le> ?k
               then Some (?cs ! (snd key - 1))
               else if fst key = ?uri \<and> ?k < snd key \<and> snd key < MAX_SAFE_INTEGER
               then None else map_of (chunks s1) key)"
    using cs unfolding contentSaved_def by blast
  then have chunks': "map_of (chunks s') =
       (\<lambda>key. if fst key = ?uri \<and> 1 \<le> snd key \<and> snd key \<le> ?k
               then Some (?cs ! (snd key - 1))
               else if fst key = ?uri \<and> ?k < snd key \<and> snd key < MAX_SAFE_INTEGER
               then None else map_of (chunks s) key)"
    using end_fields(1) s1(1) by (simp cong: if_cong)
  have files': "map_of (files s') = (map_of (files s))(so_path options \<mapsto> f)"
    using end_fields(3) files2 by (simp add: update_conv')
  have f': "f = \<lparr>f_path = so_path options, f_URIComponent = ?uri,
          f_metadata = Some (case so_metadata options of None \<Rightarrow> ''{}'' | Some m \<Rightarrow> m),
          f_flags = (if ?k < length ?cs then [''incomplete''] else []),
          f_size = length (concat (take ?k ?cs))\<rparr>"
    using f fl sz by simp
  show ?thesis
    unfolding savedAs_def
    using idle f' chunks' files' saving del by blast
qed
section \<open>The chunk records after a save\<close>

lemma chunkIndicesOk_iff:
  "chunkIndicesOk s \<longleftrightarrow>
   (\<forall>key \<in> dom (map_of (chunks s)). 1 \<le> snd key \<and> snd key < MAX_SAFE_INTEGER)"
proof -
  have "chunkIndicesOk s \<longleftrightarrow>
        (\<forall>key \<in> set (map fst (entries (chunks s))). 1 \<le> snd key \<and> snd key < MAX_SAFE_INTEGER)"
    by (simp add: chunkIndicesOk_def list_all_iff)
  then show ?thesis by (simp only: entries_keys)
qed

lemma chunkIndicesOk_lookup:
  "chunkIndicesOk s \<Longrightarrow> map_of (chunks s) (u, i) = Some v \<Longrightarrow> 1 \<le> i \<and> i < MAX_SAFE_INTEGER"
  by (auto simp: chunkIndicesOk_iff dom_def)

lemma savedAs_chunks:
  assumes "savedAs options s f s'" and "chunkIndicesOk s"
  shows "map_of (chunks s') (pathToURIComponent (so_path options), i) =
         (if 1 \<le> i \<and> i \<le> writtenCount (so_maxFileSizeBytes options) 0
                               (contentChunks (so_content options))
          then Some (contentChunks (so_content options) ! (i - 1)) else None)"
proof -
  let ?uri = "pathToURIComponent (so_path options)"
  let ?k = "writtenCount (so_maxFileSizeBytes options) 0 (contentChunks (so_content options))"
  have old: "map_of (chunks s) (?uri, i) \<noteq> None \<Longrightarrow> 1 \<le> i \<and> i < MAX_SAFE_INTEGER"
    using chunkIndicesOk_lookup [OF assms(2)] by auto
  have "map_of (chunks s') =
       (\<lambda>key. if fst key = ?uri \<and> 1 \<le> snd key \<and> snd key \<le> ?k
               then Some (contentChunks (so_content options) ! (snd key - 1))
               else if fst key = ?uri \<and> ?k < snd key \<and> snd key < MAX_SAFE_INTEGER
               then None else map_of (chunks s) key)"
    using assms(1) unfolding savedAs_def by blast
  then have at: "map_of (chunks s') (?uri, i) =
       (if 1 \<le> i \<and> i \<le> ?k then Some (contentChunks (so_content options) ! (i - 1))
        else if ?k < i \<and> i < MAX_SAFE_INTEGER then None else map_of (chunks s) (?uri, i))"
    by simp
  show ?thesis
  proof (cases "1 \<le> i \<and> i \<le> ?k")
    case True
    then show ?thesis using at by simp
  next
    case False
    show ?thesis
    proof (cases "?k < i \<and> i < MAX_SAFE_INTEGER")
      case True
      then show ?thesis using at False by simp
    next
      case out: False
      then have "\<not> (1 \<le> i \<and> i < MAX_SAFE_INTEGER)" using False by auto
      then have "map_of (chunks s) (?uri, i) = None" using old by blast
      then show ?thesis using at False out by simp
    qed
  qed
qed

lemma savedAs_scan:
  assumes "savedAs options s f s'" and "chunkIndicesOk s"
  shows "chunksPrefix s' (pathToURIComponent (so_path options)) =
         map (\<lambda>i. ((pathToURIComponent (so_path options), i),
                    contentChunks (so_content options) ! (i - 1)))
           [1..<Suc (writtenCount (so_maxFileSizeBytes options) 0
                       (contentChunks (so_content options)))]"
  by (rule chunksPrefix_eq) (rule savedAs_chunks [OF assms])

lemma scan_values:
  "k \<le> length cs \<Longrightarrow> map snd (map (\<lambda>i. ((uri, i), cs ! (i - 1))) [1..<Suc k]) = take k cs"
  by (rule nth_equalityI) (simp_all del: upt_Suc)

section \<open>Draining the content stream\<close>

lemma pullLimit_returns:
  "\<exists>tc s'. pullLimit v st s = ((v, st\<lparr>cs_window := tc\<rparr>), s') \<and> sameStore s s'"
proof -
  obtain r s1 where rl: "rateLimit (ro_chunksPerSecond (cs_options st)) noEmit (cs_window st) s = (r, s1)"
    by (cases "rateLimit (ro_chunksPerSecond (cs_options st)) noEmit (cs_window st) s")
  have same: "sameStore s s1" using rl by (rule sameStore_rateLimit) (rule sameStore_noEmit)
  obtain tc where "r = Returns tc"
    using rl rateLimit_noEmit_returns [of "ro_chunksPerSecond (cs_options st)" "cs_window st" s]
    by auto
  then show ?thesis
    using rl same by (intro exI [of _ tc] exI [of _ s1]) (simp add: pullLimit_def)
qed

lemma drain_entries:
  assumes "cs_phase st = Readable" and "cs_started st" and "cs_entries st = Some es"
    and "\<forall>e \<in> set es. snd e \<noteq> []"
  shows "\<exists>s'. readStreamLoop st acc s = (Returns (acc @ concat (map snd es)), s')"
  using assms
proof (induction es arbitrary: st acc s)
  case Nil
  let ?st1 = "st\<lparr>cs_started := True, cs_entries := Some [], cs_phase := Closed\<rparr>"
  obtain tc s1 where pl: "pullLimit None ?st1
      (decrementClientIdReq (ro_clientId (cs_options st)) s) = ((None, ?st1\<lparr>cs_window := tc\<rparr>), s1)"
    using pullLimit_returns by blast
  have "pull st s = ((None, ?st1\<lparr>cs_window := tc\<rparr>), s1)"
    using Nil pl by (simp add: pull_def Let_def)
  then show ?case
    using Nil by (simp add: readStreamLoop.simps [of st] readStreamLoop.simps [of "?st1\<lparr>cs_window := tc\<rparr>"])
next
  case (Cons e es)
  let ?st1 = "st\<lparr>cs_started := True, cs_entries := Some es\<rparr>"
  obtain tc s1 where pl: "pullLimit (Some (snd e)) ?st1 s = ((Some (snd e), ?st1\<lparr>cs_window := tc\<rparr>), s1)"
    using pullLimit_returns by blast
  have p: "pull st s = ((Some (snd e), ?st1\<lparr>cs_window := tc\<rparr>), s1)"
    using Cons.prems pl by (simp add: pull_def Let_def)
  have "\<exists>s'. readStreamLoop (?st1\<lparr>cs_window := tc\<rparr>) (acc @ snd e) s1 =
          (Returns ((acc @ snd e) @ concat (map snd es)), s')"
    using Cons.prems by (intro Cons.IH) simp_all
  then show ?case
    using Cons.prems p by (simp add: readStreamLoop.simps [of st])
qed

lemma drain_fresh:
  assumes "cs_phase st = Readable" and "\<not> cs_started st" and "cs_entries st = None"
    and cap: "\<not> exceeds (getClientReqs (incrementClientIdReq (ro_clientId (cs_options st)) s)
                              (ro_clientId (cs_options st)))
                 (ro_maxClientIdConcurrentReqs (cs_options st))"
    and nofault: "kvFault s (KvList (ChunksOf (cs_uri st))) = None"
    and vals: "\<forall>e \<in> set (chunksPrefix s (cs_uri st)). snd e \<noteq> []"
  shows "\<exists>s'. readStream st s = (Returns (concat (map snd (chunksPrefix s (cs_uri st)))), s')"
proof -
  let ?c = "ro_clientId (cs_options st)"
  let ?s1 = "incrementClientIdReq ?c s"
  have pre: "chunksPrefix ?s1 (cs_uri st) = chunksPrefix s (cs_uri st)"
    by (rule chunksPrefix_cong) (rule chunks_incrementClientIdReq)
  have nocap: "\<not> exceeds (getClientReqs ?s1 ?c) (ro_maxClientIdConcurrentReqs (cs_options st))"
    using cap .
  have list: "kvDo (KvList (ChunksOf (cs_uri st))) ?s1 = Returns ()"
    using nofault by (simp add: kvDo_def incrementClientIdReq_def Let_def)
  let ?es = "chunksPrefix s (cs_uri st)"
  have es: "map fst (pagedListIterator (chunksPrefix ?s1 (cs_uri st)) None) = ?es"
    using pre chunksPrefix_paged by simp
  show ?thesis
  proof (cases ?es)
    case Nil
    let ?st1 = "st\<lparr>cs_started := True, cs_entries := Some [], cs_phase := Closed\<rparr>"
    obtain tc s2 where pl: "pullLimit None ?st1 (decrementClientIdReq ?c ?s1) =
        ((None, ?st1\<lparr>cs_window := tc\<rparr>), s2)"
      using pullLimit_returns by blast
    have "pull st s = ((None, ?st1\<lparr>cs_window := tc\<rparr>), s2)"
      using assms(2,3) nocap list es Nil pl by (simp add: pull_def Let_def)
    then show ?thesis
      using assms(1) Nil
      by (simp add: readStream_def readStreamLoop.simps [of st]
          readStreamLoop.simps [of "?st1\<lparr>cs_window := tc\<rparr>"])
  next
    case (Cons e rest)
    let ?st1 = "st\<lparr>cs_started := True, cs_entries := Some rest\<rparr>"
    have ne: "snd e \<noteq> []" using vals Cons by simp
    obtain tc s2 where pl: "pullLimit (Some (snd e)) ?st1 ?s1 =
        ((Some (snd e), ?st1\<lparr>cs_window := tc\<rparr>), s2)"
      using pullLimit_returns by blast
    have p: "pull st s = ((Some (snd e), ?st1\<lparr>cs_window := tc\<rparr>), s2)"
      using assms(2,3) nocap list es Cons ne pl by (simp add: pull_def Let_def)
    have "\<exists>s'. readStreamLoop (?st1\<lparr>cs_window := tc\<rparr>) ([] @ snd e) s2 =
            (Returns (([] @ snd e) @ concat (map snd rest)), s')"
      using assms(1) vals Cons by (intro drain_entries) simp_all
    then show ?thesis
      using assms(1) p Cons by (simp add: readStream_def readStreamLoop.simps [of st])
  qed
qed

section \<open>Payloads, chunk bounds and evaluation\<close>

lemma writtenCount_payload:
  "length b \<le> cap \<Longrightarrow> writtenCount cap 0 (toChunks b) = length (toChunks b)"
  by (rule writtenCount_all) (simp add: concat_toChunks)

lemma read_after_save:
  assumes "savedAs options s f s'" and "ro_path ropts = so_path options"
    and "ro_validateAccess ropts (so_path options)"
    and "plainObject (pathToURIComponent (so_path options)) = None"
    and "kvFault s' OpenKv = None" and "kvFault s' (KvGet (FileKey (so_path options))) = None"
  shows "\<exists>strm s1. read ropts s' = (Returns (ReadFile f strm), s1) \<and> sameStore s' s1 \<and>
           cs_phase strm = Readable \<and> \<not> cs_started strm \<and> cs_entries strm = None \<and>
           cs_options strm = ropts \<and> cs_uri strm = pathToURIComponent (so_path options)"
proof -
  let ?uri = "pathToURIComponent (so_path options)"
  have idle: "fileStatus s' ?uri = Returns None"
    using assms(1,4) by (simp add: savedAs_def fileStatus_None deleteProperty_def)
  have rec: "map_of (files s') (so_path options) = Some f"
    using assms(1) by (simp add: savedAs_def)
  have uri: "f\<lparr>f_URIComponent := ?uri\<rparr> = f"
    using assms(1) by (simp add: savedAs_def)
  obtain now s1 where d: "dateNow s' = (now, s1)" by (cases "dateNow s'")
  have "sameStore s' s1" using d by (rule sameStore_dateNow)
  then show ?thesis
    using idle rec uri d assms(2,3,5,6)
    by (simp add: read_def initKv_def kvDo_def contentData_def contentToStream_def Let_def)
qed

lemma getChunkIterLoop_length:
  "getChunkIterLoop r acc = Returns (c, fin, r') \<Longrightarrow> length acc \<le> chunkSize \<Longrightarrow>
   length c \<le> chunkSize"
proof (induction r acc rule: getChunkIterLoop.induct)
  case (1 r acc)
  show ?case
  proof (cases "length acc < chunkSize")
    case False
    then show ?thesis using "1.prems" by (simp add: getChunkIterLoop.simps [of r acc])
  next
    case True
    show ?thesis
    proof (cases "readInto r (chunkSize - length acc)")
      case (ReadValue v r1)
      have "length v \<le> chunkSize - length acc"
        using ReadValue by (auto simp: readInto_def split: list.splits option.splits)
      then have len: "length (acc @ v) \<le> chunkSize" using True by simp
      have "getChunkIterLoop r1 (acc @ v) = Returns (c, fin, r')"
        using "1.prems"(1) True ReadValue by (simp add: getChunkIterLoop.simps [of r acc])
      then show ?thesis using "1.IH" [OF True ReadValue _ len] by simp
    next
      case ReadDone
      then show ?thesis
        using "1.prems" True by (simp add: getChunkIterLoop.simps [of r acc])
    next
      case (ReadError e)
      then show ?thesis
        using "1.prems" True by (simp add: getChunkIterLoop.simps [of r acc])
    qed
  qed
qed

lemma readerChunks_le: "c \<in> set (fst (readerChunks r)) \<Longrightarrow> length c \<le> chunkSize"
proof (induction r rule: readerChunks.induct)
  case (1 reader)
  show ?case
  proof (cases "getChunkIter reader")
    case (Throws e)
    then show ?thesis using "1.prems" by (simp add: readerChunks.simps [of reader])
  next
    case (Returns x)
    obtain chunk finished reader' where x: "x = (chunk, finished, reader')" by (cases x)
    have chunk: "length chunk \<le> chunkSize"
      using Returns x getChunkIterLoop_length [of reader "[]" chunk finished reader']
      by (simp add: getChunkIter_def)
    show ?thesis
    proof (cases finished)
      case True
      then show ?thesis
        using "1.prems" Returns x chunk by (simp add: readerChunks.simps [of reader])
    next
      case False
      obtain cs e where rc: "readerChunks reader' = (cs, e)" by (cases "readerChunks reader'")
      have "c = chunk \<or> c \<in> set (fst (readerChunks reader'))"
        using "1.prems" Returns x False rc by (simp add: readerChunks.simps [of reader])
      then show ?thesis
        using chunk "1.IH" [OF Returns x [symmetric] refl False] by auto
    qed
  qed
qed

lemma contentChunks_le: "c \<in> set (contentChunks x) \<Longrightarrow> length c \<le> chunkSize"
  by (cases x) (auto simp: contentChunks_def toChunks_chunk_le readerChunks_le)

lemma savedAs_chunkIndicesOk:
  assumes "savedAs options s f s'" and "chunkIndicesOk s"
    and "length (contentChunks (so_content options)) < MAX_SAFE_INTEGER"
  shows "chunkIndicesOk s'"
proof -
  let ?uri = "pathToURIComponent (so_path options)"
  let ?cs = "contentChunks (so_content options)"
  let ?k = "writtenCount (so_maxFileSizeBytes options) 0 ?cs"
  have k: "?k < MAX_SAFE_INTEGER"
    using assms(3) writtenCount_le [of "so_maxFileSizeBytes options" 0 ?cs] by simp
  have other: "map_of (chunks s') key = map_of (chunks s) key" if "fst key \<noteq> ?uri" for key
    using assms(1) that unfolding savedAs_def by simp
  show ?thesis
    unfolding chunkIndicesOk_iff
  proof
    fix key assume key: "key \<in> dom (map_of (chunks s'))"
    obtain u i where ui: "key = (u, i)" by (cases key)
    show "1 \<le> snd key \<and> snd key < MAX_SAFE_INTEGER"
    proof (cases "u = ?uri")
      case True
      have "map_of (chunks s') (?uri, i) \<noteq> None"
        using key ui True by (simp add: dom_def)
      then have "1 \<le> i \<and> i \<le> ?k"
        unfolding savedAs_chunks [OF assms(1,2), of i] by (simp split: if_splits)
      then show ?thesis using k ui by simp
    next
      case False
      then have "key \<in> dom (map_of (chunks s))"
        using key other [of key] ui by (auto simp: dom_def)
      then show ?thesis using assms(2) by (simp add: chunkIndicesOk_iff)
    qed
  qed
qed

lemma length_toChunks_le: "length (toChunks b) \<le> length b"
proof (cases "length b = 0")
  case True
  then show ?thesis by (simp add: length_toChunks chunkSize_def)
next
  case False
  then have "1 \<le> length b" by (cases b) simp_all
  then have "length b + chunkSize - 1 \<le> length b * chunkSize"
    by (simp add: chunkSize_def)
  then have "(length b + chunkSize - 1) div chunkSize \<le> (length b * chunkSize) div chunkSize"
    by (rule div_le_mono)
  then show ?thesis using chunkSize_pos by (simp add: length_toChunks)
qed

text \<open>The equations that evaluate the model on a concrete input.\<close>

lemmas model_defs =
  save_def saveGuarded_def saveTry_def saveCatch_def saveContent_def saveFromUint8Array_def saveFromReader_def
  finishSave_def putChunk_def markIncomplete_def retract_def emitRetract_def incompleteStatus_def
  toChunks_def getChunkIter_def readInto_def createByteStream_def
  startSaving_def endSaving_def startDeleting_def endDeleting_def
  incrementClientIdReq_def decrementClientIdReq_def getClientReqs_def
  fileStatus_def fileIsSaving_def fileIsDeleting_def onFileProgress_def errorStatus_def returnError_def
  emitFileStatus_def rateLimit_def dateNow_def noEmit_def
  chunksPrefix_def chunksRange_def filesPrefix_def entries_def listPage_def afterCursor_def tagPage_def
  read_def contentData_def contentToStream_def pull_def pullFailed_def pullLimit_def readStream_def
  delete_def deleteTry_def deleteCatch_def deleteChunks_def deleteDir_def readDir_def setMetadata_def getMetadata_def
  defaultSaveOptions_def defaultReadOptions_def readOptionsOfSave_def markerOfSave_def markerOfRead_def
  newEngine_def failingAt_def plainObject_def objectPrototypeNames_def deleteProperty_def kvDo_def initKv_def
  chunkSize_def maxPageSize_def oneSecondDelayMillis_def MAX_SAFE_INTEGER_def
  pathToURIComponent_def URIComponentToPath_def encodeURIComponent_def encodeChar_def uriUnescaped_def
  byte_of_def hexOctet_def hexDigit_def hexVal_def parseHexOctet_def leadingOnes_def isCont_def
  capMessage_def thrownMessage_def fileExtension_def extensionMessage_def emptyChunkError_def
  intToString_def Let_def pagedListIterator.simps getChunkIterLoop.simps saveReaderLoop.simps
  readStreamLoop.simps natToString.simps

lemma chunkIndicesOk_newEngine: "chunkIndicesOk (newEngine ticks)"
  by (simp add: chunkIndicesOk_def newEngine_def entries_def)

lemma save_pair: "fst (save options s) = r \<Longrightarrow> save options s = (r, snd (save options s))"
  by (simp add: prod_eq_iff)

section \<open>The chunks of a stream\<close>

lemma toChunks_Nil: "toChunks [] = []"
  by (simp add: toChunks_def chunkSize_def)

lemma toChunks_Cons:
  assumes "b \<noteq> []"
  shows "toChunks b = take chunkSize b # toChunks (drop chunkSize b)"
proof (rule nth_equalityI)
  have pos: "0 < length b" using assms by simp
  show len: "length (toChunks b) = length (take chunkSize b # toChunks (drop chunkSize b))"
  proof (cases "chunkSize \<le> length b")
    case True
    have "length b + chunkSize - 1 = (length b - chunkSize + chunkSize - 1) + chunkSize"
      using True chunkSize_pos by simp
    then have "(length b + chunkSize - 1) div chunkSize =
          (length b - chunkSize + chunkSize - 1) div chunkSize + 1"
      using chunkSize_pos by (simp only: div_add_self2)
    then show ?thesis by (simp add: length_toChunks)
  next
    case False
    have one: "1 \<le> length b" using assms by (cases b) simp_all
    have "chunkSize * 1 \<le> length b + chunkSize - 1"
      using one by arith
    moreover have "length b + chunkSize - 1 < chunkSize * Suc 1"
      using False one by arith
    ultimately have "(length b + chunkSize - 1) div chunkSize = 1"
      by (rule div_nat_eqI)
    then show ?thesis using False by (simp add: length_toChunks)
  qed
  fix i
  assume i: "i < length (toChunks b)"
  show "toChunks b ! i = (take chunkSize b # toChunks (drop chunkSize b)) ! i"
  proof (cases i)
    case 0
    then show ?thesis using i by (simp add: toChunks_nth)
  next
    case (Suc j)
    then have j: "j < length (toChunks (drop chunkSize b))" using i len by simp
    show ?thesis
      using i j Suc by (simp add: toChunks_nth add.commute)
  qed
qed

lemma getChunkIterLoop_closed:
  assumes "rs_failure r = None" and "length acc \<le> chunkSize"
  shows "\<exists>r'. getChunkIterLoop r acc =
           Returns (acc @ take (chunkSize - length acc) (concat (rs_blocks r)),
                    length acc + length (concat (rs_blocks r)) < chunkSize, r') \<and>
         rs_failure r' = None \<and>
         concat (rs_blocks r') = drop (chunkSize - length acc) (concat (rs_blocks r))"
  using assms
proof (induction r acc rule: getChunkIterLoop.induct)
  case (1 r acc)
  show ?case
  proof (cases "length acc < chunkSize")
    case False
    then show ?thesis
      using "1.prems" by (simp add: getChunkIterLoop.simps [of r acc])
  next
    case True
    show ?thesis
    proof (cases "rs_blocks r")
      case Nil
      then have "readInto r (chunkSize - length acc) = ReadDone"
        using "1.prems" by (simp add: readInto_def)
      then show ?thesis
        using True Nil "1.prems" by (simp add: getChunkIterLoop.simps [of r acc])
    next
      case (Cons blk rest)
      let ?n = "chunkSize - length acc"
      let ?r1 = "r\<lparr>rs_blocks := (if length blk \<le> ?n then rest else drop ?n blk # rest)\<rparr>"
      have rd: "readInto r ?n = ReadValue (take ?n blk) ?r1"
        using Cons by (simp add: readInto_def)
      have f1: "rs_failure ?r1 = None" using "1.prems" by simp
      have l1: "length (acc @ take ?n blk) \<le> chunkSize" using True by simp
      obtain r' where r': "getChunkIterLoop ?r1 (acc @ take ?n blk) =
           Returns ((acc @ take ?n blk) @
                      take (chunkSize - length (acc @ take ?n blk)) (concat (rs_blocks ?r1)),
                    length (acc @ take ?n blk) + length (concat (rs_blocks ?r1)) < chunkSize, r')"
        and fr: "rs_failure r' = None"
        and cr: "concat (rs_blocks r') =
                 drop (chunkSize - length (acc @ take ?n blk)) (concat (rs_blocks ?r1))"
        using "1.IH" [OF True rd f1 l1] by blast
      have step: "getChunkIterLoop r acc = getChunkIterLoop ?r1 (acc @ take ?n blk)"
        using True rd by (simp add: getChunkIterLoop.simps [of r acc])
      have bytes: "(acc @ take ?n blk) @
                      take (chunkSize - length (acc @ take ?n blk)) (concat (rs_blocks ?r1)) =
                   acc @ take ?n (concat (rs_blocks r))"
        using Cons True by (auto simp: min_def take_all)
      have fin: "length (acc @ take ?n blk) + length (concat (rs_blocks ?r1)) < chunkSize \<longleftrightarrow>
                 length acc + length (concat (rs_blocks r)) < chunkSize"
        using Cons True by (auto simp: min_def)
      have rest: "drop (chunkSize - length (acc @ take ?n blk)) (concat (rs_blocks ?r1)) =
                  drop ?n (concat (rs_blocks r))"
        using Cons True by (auto simp: min_def)
      show ?thesis
        unfolding step using r' fr cr bytes fin rest by simp
    qed
  qed
qed

lemma getChunkIter_closed:
  assumes "rs_failure r = None"
  shows "\<exists>r'. getChunkIter r =
           Returns (take chunkSize (concat (rs_blocks r)),
                    length (concat (rs_blocks r)) < chunkSize, r') \<and>
         rs_failure r' = None \<and>
         concat (rs_blocks r') = drop chunkSize (concat (rs_blocks r))"
  using getChunkIterLoop_closed [OF assms, of "[]"] by (simp add: getChunkIter_def)

lemma readerChunks_closed:
  assumes "rs_failure r = None" and "b = concat (rs_blocks r)"
  shows "readerChunks r =
         (toChunks b @ (if length b mod chunkSize = 0 then [[]] else []), None)"
  using assms
proof (induction "length b" arbitrary: r b rule: less_induct)
  case less
  obtain r' where g: "getChunkIter r = Returns (take chunkSize b, length b < chunkSize, r')"
    and fr: "rs_failure r' = None"
    and cr: "drop chunkSize b = concat (rs_blocks r')"
    using getChunkIter_closed [OF less.prems(1)] less.prems(2) by auto
  show ?case
  proof (cases "length b < chunkSize")
    case True
    then have rc: "readerChunks r = ([b], None)"
      using g by (simp add: readerChunks.simps [of r])
    show ?thesis
    proof (cases "b = []")
      case True
      then show ?thesis using rc by (simp add: toChunks_Nil)
    next
      case False
      then have "toChunks b = [b]"
        using True toChunks_Cons [OF False] by (simp add: toChunks_Nil)
      moreover have "length b mod chunkSize \<noteq> 0" using True False by simp
      ultimately show ?thesis using rc by simp
    qed
  next
    case False
    then have ne: "b \<noteq> []" using chunkSize_pos by auto
    have smaller: "length (drop chunkSize b) < length b"
      using False chunkSize_pos by simp
    have ih: "readerChunks r' =
        (toChunks (drop chunkSize b) @
           (if length (drop chunkSize b) mod chunkSize = 0 then [[]] else []), None)"
      using less.hyps [OF smaller fr cr] .
    have m: "length (drop chunkSize b) mod chunkSize = length b mod chunkSize"
      using False by (simp add: le_mod_geq)
    have "readerChunks r =
        (take chunkSize b # fst (readerChunks r'), snd (readerChunks r'))"
      using g False by (simp add: readerChunks.simps [of r] case_prod_beta)
    then show ?thesis
      unfolding ih using m toChunks_Cons [OF ne] by simp
  qed
qed

lemma createByteStream_blocks:
  "[] \<notin> set (rs_blocks r) \<Longrightarrow>
   createByteStream r = \<lparr>rs_blocks = rs_blocks r, rs_failure = rs_failure r, rs_bytes = True\<rparr>"
proof -
  assume "[] \<notin> set (rs_blocks r)"
  then have tw: "takeWhile (\<lambda>b. b \<noteq> []) (rs_blocks r) = rs_blocks r"
    by (intro takeWhile_eq_all_conv [THEN iffD2]) auto
  show ?thesis unfolding createByteStream_def Let_def tw by simp
qed

lemma delivers_chunks:
  assumes "delivers c b"
  shows "contentChunks c =
         toChunks b @ (if isStream c \<and> length b mod chunkSize = 0 then [[]] else [])"
proof (cases c)
  case (Str t)
  then show ?thesis using assms by (simp add: delivers_def contentChunks_def isStream_def)
next
  case (Bytes arr)
  then show ?thesis using assms by (simp add: delivers_def contentChunks_def isStream_def)
next
  case (Stream strm)
  let ?r = "if rs_bytes strm then strm else createByteStream strm"
  have ok: "rs_failure strm = None" "rs_bytes strm \<or> [] \<notin> set (rs_blocks strm)"
    "b = concat (rs_blocks strm)"
    using assms Stream by (simp_all add: delivers_def)
  have "rs_failure ?r = None \<and> rs_blocks ?r = rs_blocks strm"
    using ok by (auto simp: createByteStream_blocks)
  then have "readerChunks ?r =
      (toChunks b @ (if length b mod chunkSize = 0 then [[]] else []), None)"
    using readerChunks_closed [of ?r b] ok(3) by simp
  then show ?thesis using Stream by (simp add: contentChunks_def isStream_def)
qed

section \<open>Round trip\<close>

text \<open>
  Where the round trip holds: the content delivers \<open>b\<close> within the cap, and when it is a
  stream the length of \<open>b\<close> is not a multiple of 65536; the URI component of the path
  is not the name of a member of \<open>Object.prototype\<close>; and the store answers the three
  operations of the read. Then a read of the path, by a client that is admitted and that
  its cap lets through, returns the record the save returned, its size is the length of
  \<open>b\<close>, and draining its content stream gives \<open>b\<close>.
\<close>

lemma getClientReqs_cong:
  "clientsReqsMap s1 = clientsReqsMap s \<Longrightarrow> getClientReqs s1 c = getClientReqs s c"
  by (simp add: getClientReqs_def)

lemma clientsReqsMap_increment_cong:
  "clientsReqsMap s1 = clientsReqsMap s \<Longrightarrow>
   clientsReqsMap (incrementClientIdReq c s1) = clientsReqsMap (incrementClientIdReq c s)"
  by (simp add: incrementClientIdReq_def Let_def)

lemma round_trip_delivered:
  assumes "chunkIndicesOk s"
    and "delivers (so_content options) b"
    and "isStream (so_content options) \<longrightarrow> length b mod chunkSize \<noteq> 0"
    and "length b \<le> so_maxFileSizeBytes options"
    and "save options s = (Returns (SavedFile f), s')"
    and "ro_path ropts = so_path options"
    and "ro_validateAccess ropts (so_path options)"
    and "\<not> exceeds (getClientReqs (incrementClientIdReq (ro_clientId ropts) s') (ro_clientId ropts))
               (ro_maxClientIdConcurrentReqs ropts)"
    and "plainObject (pathToURIComponent (so_path options)) = None"
    and "kvFault s' OpenKv = None" and "kvFault s' (KvGet (FileKey (so_path options))) = None"
    and "kvFault s' (KvList (ChunksOf (pathToURIComponent (so_path options)))) = None"
  shows "case read ropts s' of
           (Returns (ReadFile file strm), s1) \<Rightarrow>
             file = f \<and> f_size file = length b \<and> fst (readStream strm s1) = Returns b
         | _ \<Rightarrow> False"
proof -
  let ?uri = "pathToURIComponent (so_path options)"
  have saved: "savedAs options s f s'" using assms(5) by (rule save_success)
  have cs: "contentChunks (so_content options) = toChunks b"
    using delivers_chunks [OF assms(2)] assms(3) by simp
  have k: "writtenCount (so_maxFileSizeBytes options) 0 (toChunks b) = length (toChunks b)"
    using assms(4) by (rule writtenCount_payload)
  have size: "f_size f = length b"
    using saved cs k by (simp add: savedAs_def concat_toChunks)
  obtain strm s1 where rd: "read ropts s' = (Returns (ReadFile f strm), s1)"
    and same: "sameStore s' s1"
    and strm: "cs_phase strm = Readable" "\<not> cs_started strm" "cs_entries strm = None"
      "cs_options strm = ropts" "cs_uri strm = ?uri"
    using read_after_save [OF saved assms(6,7,9,10,11)] by blast
  have scan: "chunksPrefix s1 ?uri =
      map (\<lambda>i. ((?uri, i), toChunks b ! (i - 1))) [1..<Suc (length (toChunks b))]"
    using savedAs_scan [OF saved assms(1)] cs k same
    by (simp add: chunksPrefix_cong [of s1 s'] sameStore_chunks)
  have vals: "map snd (chunksPrefix s1 ?uri) = toChunks b"
    unfolding scan using scan_values [of "length (toChunks b)" "toChunks b" ?uri] by simp
  have nonempty: "\<forall>e \<in> set (chunksPrefix s1 (cs_uri strm)). snd e \<noteq> []"
  proof
    fix e assume "e \<in> set (chunksPrefix s1 (cs_uri strm))"
    then have "snd e \<in> set (map snd (chunksPrefix s1 ?uri))" using strm(5) by simp
    then show "snd e \<noteq> []" unfolding vals by (rule toChunks_nonempty)
  qed
  have cap: "\<not> exceeds (getClientReqs (incrementClientIdReq (ro_clientId (cs_options strm)) s1)
                              (ro_clientId (cs_options strm)))
                 (ro_maxClientIdConcurrentReqs (cs_options strm))"
  proof -
    have "clientsReqsMap s1 = clientsReqsMap s'" using same by (simp add: sameStore_def)
    then have "getClientReqs (incrementClientIdReq (ro_clientId ropts) s1) (ro_clientId ropts) =
               getClientReqs (incrementClientIdReq (ro_clientId ropts) s') (ro_clientId ropts)"
      by (intro getClientReqs_cong clientsReqsMap_increment_cong)
    then show ?thesis using assms(8) strm(4) by simp
  qed
  have nofault: "kvFault s1 (KvList (ChunksOf (cs_uri strm))) = None"
    using assms(12) strm(5) same by (simp add: sameStore_def)
  obtain s2 where "readStream strm s1 =
      (Returns (concat (map snd (chunksPrefix s1 (cs_uri strm)))), s2)"
    using drain_fresh [OF strm(1,2,3) cap nofault nonempty] by blast
  then have "fst (readStream strm s1) = Returns b"
    using vals strm(5) by (simp add: concat_toChunks)
  then show ?thesis using rd size by simp
qed

text \<open>
  C1. The round trip fails for a byte stream whose length is a multiple of 65536, the
  empty stream among them. \<open>#getChunkIter\<close> then ends with a chunk without bytes, which
  \<open>#saveFromReader\<close> stores as the last chunk record; \<open>save\<close> returns the file record, with
  the size of the payload; \<open>read\<close> returns that record; and the content stream fails when
  it is drained, at \<open>controller.enqueue\<close> of the chunk without bytes. Here an empty byte
  stream, and a byte stream of one block of 65536 bytes, on a fresh engine.
\<close>

theorem stream_round_trip_fails:
  "fst (save (defaultSaveOptions [''f'']
          (Stream \<lparr>rs_blocks = [], rs_failure = None, rs_bytes = True\<rparr>)) (newEngine [])) =
     Returns (SavedFile \<lparr>f_path = [''f''], f_URIComponent = ''f'',
       f_metadata = Some ''{}'', f_flags = [], f_size = 0\<rparr>) \<and>
   (case read (defaultReadOptions [''f''])
           (snd (save (defaultSaveOptions [''f'']
              (Stream \<lparr>rs_blocks = [], rs_failure = None, rs_bytes = True\<rparr>)) (newEngine []))) of
      (Returns (ReadFile file strm), s1) \<Rightarrow>
        file = \<lparr>f_path = [''f''], f_URIComponent = ''f'',
                 f_metadata = Some ''{}'', f_flags = [], f_size = 0\<rparr> \<and>
        fst (readStream strm s1) = Throws emptyChunkError
    | _ \<Rightarrow> False) \<and>
   fst (save (defaultSaveOptions [''g'']
          (Stream \<lparr>rs_blocks = [replicate 65536 7], rs_failure = None, rs_bytes = True\<rparr>))
        (newEngine [])) =
     Returns (SavedFile \<lparr>f_path = [''g''], f_URIComponent = ''g'',
       f_metadata = Some ''{}'', f_flags = [], f_size = 65536\<rparr>) \<and>
   (case read (defaultReadOptions [''g''])
           (snd (save (defaultSaveOptions [''g'']
              (Stream \<lparr>rs_blocks = [replicate 65536 7], rs_failure = None, rs_bytes = True\<rparr>))
              (newEngine []))) of
      (Returns (ReadFile file strm), s1) \<Rightarrow>
        f_size file = 65536 \<and> fst (readStream strm s1) = Throws emptyChunkError
    | _ \<Rightarrow> False)"
  by (simp add: model_defs upt_rec)

section \<open>Chunk layout\<close>

text \<open>
  C2, as amended. A content delivers the bytes \<open>b\<close>: a string, a byte array, or a byte
  stream that hands out \<open>b\<close> and closes. When \<open>b\<close> is within the cap and, for a stream, its
  length is not a multiple of 65536, then after the save has returned the file record
  the chunk record of every index \<open>i\<close> from 1 to \<open>ceil(|b| / 65536)\<close> is the slice of \<open>b\<close> at
  \<open>(i - 1) * 65536\<close>, of \<open>min(65536, |b| - (i - 1) * 65536)\<close> bytes, and there is no chunk
  record at the next index.
\<close>

theorem chunk_layout:
  assumes "chunkIndicesOk s"
    and "delivers (so_content options) b"
    and "isStream (so_content options) \<longrightarrow> length b mod chunkSize \<noteq> 0"
    and "length b \<le> so_maxFileSizeBytes options"
    and "save options s = (Returns (SavedFile f), s')"
    and "1 \<le> i" and "i \<le> (length b + chunkSize - 1) div chunkSize"
  shows "map_of (chunks s') (pathToURIComponent (so_path options), i) =
           Some (take chunkSize (drop ((i - 1) * chunkSize) b)) \<and>
         length (take chunkSize (drop ((i - 1) * chunkSize) b)) =
           min chunkSize (length b - (i - 1) * chunkSize) \<and>
         map_of (chunks s')
           (pathToURIComponent (so_path options), (length b + chunkSize - 1) div chunkSize + 1) = None"
proof -
  have saved: "savedAs options s f s'" using assms(5) by (rule save_success)
  have cs: "contentChunks (so_content options) = toChunks b"
    using delivers_chunks [OF assms(2)] assms(3) by simp
  have k: "writtenCount (so_maxFileSizeBytes options) 0 (toChunks b) = length (toChunks b)"
    using assms(4) by (rule writtenCount_payload)
  have at: "map_of (chunks s') (pathToURIComponent (so_path options), j) =
        (if 1 \<le> j \<and> j \<le> length (toChunks b) then Some (toChunks b ! (j - 1)) else None)" for j
    using savedAs_chunks [OF saved assms(1), of j] cs k by simp
  have i: "i - 1 < length (toChunks b)"
    using assms(6,7) by (simp add: length_toChunks)
  have "map_of (chunks s') (pathToURIComponent (so_path options), i) =
        Some (take chunkSize (drop ((i - 1) * chunkSize) b))"
    using at [of i] assms(6,7) toChunks_nth [OF i] by (simp add: length_toChunks)
  moreover have "map_of (chunks s')
      (pathToURIComponent (so_path options), (length b + chunkSize - 1) div chunkSize + 1) = None"
    using at [of "(length b + chunkSize - 1) div chunkSize + 1"] by (simp add: length_toChunks)
  ultimately show ?thesis by simp
qed

text \<open>
  Two instances: 65537 bytes in a byte array make a chunk of 65536 bytes, a chunk of one
  byte, and no third; a stream that hands out two bytes and then one makes one chunk of
  three bytes.
\<close>

theorem chunk_layout_witness:
  "fst (save (defaultSaveOptions [''f''] (Bytes (replicate 65537 7))) (newEngine [])) =
     Returns (SavedFile \<lparr>f_path = [''f''], f_URIComponent = ''f'',
       f_metadata = Some ''{}'', f_flags = [], f_size = 65537\<rparr>) \<and>
   map_of (chunks (snd (save (defaultSaveOptions [''f''] (Bytes (replicate 65537 7))) (newEngine []))))
     (''f'', 2) = Some [7] \<and>
   map_of (chunks (snd (save (defaultSaveOptions [''f''] (Bytes (replicate 65537 7))) (newEngine []))))
     (''f'', 3) = None \<and>
   fst (save (defaultSaveOptions [''f'']
          (Stream \<lparr>rs_blocks = [[1, 2], [3]], rs_failure = None, rs_bytes = False\<rparr>))
        (newEngine [])) =
     Returns (SavedFile \<lparr>f_path = [''f''], f_URIComponent = ''f'',
       f_metadata = Some ''{}'', f_flags = [], f_size = 3\<rparr>) \<and>
   map_of (chunks (snd (save (defaultSaveOptions [''f'']
          (Stream \<lparr>rs_blocks = [[1, 2], [3]], rs_failure = None, rs_bytes = False\<rparr>))
        (newEngine []))))
     (''f'', 1) = Some [1, 2, 3] \<and>
   map_of (chunks (snd (save (defaultSaveOptions [''f'']
          (Stream \<lparr>rs_blocks = [[1, 2], [3]], rs_failure = None, rs_bytes = False\<rparr>))
        (newEngine []))))
     (''f'', 2) = None"
proof -
  let ?o = "defaultSaveOptions [''f''] (Bytes (replicate 65537 7))"
  let ?f = "\<lparr>f_path = [''f''], f_URIComponent = ''f'',
       f_metadata = Some ''{}'', f_flags = [], f_size = 65537\<rparr>"
  let ?strm = "\<lparr>rs_blocks = [[1, 2], [3 :: 8 word]], rs_failure = None, rs_bytes = False\<rparr>"
  let ?o2 = "defaultSaveOptions [''f''] (Stream ?strm)"
  let ?f2 = "\<lparr>f_path = [''f''], f_URIComponent = ''f'',
       f_metadata = Some ''{}'', f_flags = [], f_size = 3\<rparr>"
  have sv: "fst (save ?o (newEngine [])) = Returns (SavedFile ?f)"
    by (simp add: model_defs upt_rec)
  have sv2: "fst (save ?o2 (newEngine [])) = Returns (SavedFile ?f2)"
    by (simp add: model_defs upt_rec)
  have pl: "delivers (so_content ?o) (replicate 65537 7)"
    "isStream (so_content ?o) \<longrightarrow> length (replicate 65537 (7 :: 8 word)) mod chunkSize \<noteq> 0"
    by (simp_all add: delivers_def isStream_def defaultSaveOptions_def)
  have pl2: "delivers (so_content ?o2) [1, 2, 3]"
    "isStream (so_content ?o2) \<longrightarrow> length [1, 2, 3 :: 8 word] mod chunkSize \<noteq> 0"
    by (simp_all add: delivers_def isStream_def defaultSaveOptions_def chunkSize_def)
  have cap: "length (replicate 65537 (7 :: 8 word)) \<le> so_maxFileSizeBytes ?o"
    "length [1, 2, 3 :: 8 word] \<le> so_maxFileSizeBytes ?o2"
    by (simp_all add: defaultSaveOptions_def MAX_SAFE_INTEGER_def)
  have uri: "pathToURIComponent (so_path ?o) = ''f''" "pathToURIComponent (so_path ?o2) = ''f''"
    by (simp_all add: model_defs)
  show ?thesis
    using chunk_layout [OF chunkIndicesOk_newEngine pl cap(1) save_pair [OF sv], of 2]
      chunk_layout [OF chunkIndicesOk_newEngine pl2 cap(2) save_pair [OF sv2], of 1] sv sv2
    by (simp add: uri chunkSize_def numeral_2_eq_2 numeral_3_eq_3)
qed

text \<open>
  The layout as the specification states it fails in two places. An empty byte stream
  is saved as one empty chunk record at index 1, where \<open>ceil(0 / 65536) + 1 = 1\<close> should
  be absent. And 65537 bytes saved under a cap of 10 bytes leave no chunk record at index
  \<open>ceil(65537 / 65536) = 2\<close>.
\<close>

theorem stream_chunk_layout_counterexample:
  "fst (save (defaultSaveOptions [''f'']
          (Stream \<lparr>rs_blocks = [], rs_failure = None, rs_bytes = True\<rparr>)) (newEngine [])) =
     Returns (SavedFile \<lparr>f_path = [''f''], f_URIComponent = ''f'',
       f_metadata = Some ''{}'', f_flags = [], f_size = 0\<rparr>) \<and>
   map_of (chunks (snd (save (defaultSaveOptions [''f'']
          (Stream \<lparr>rs_blocks = [], rs_failure = None, rs_bytes = True\<rparr>)) (newEngine []))))
     (''f'', (0 + chunkSize - 1) div chunkSize + 1) = Some [] \<and>
   fst (save ((defaultSaveOptions [''f''] (Bytes (replicate 65537 7)))
          \<lparr>so_maxFileSizeBytes := 10\<rparr>) (newEngine [])) =
     Returns (SavedFile \<lparr>f_path = [''f''], f_URIComponent = ''f'',
       f_metadata = Some ''{}'', f_flags = [''incomplete''], f_size = 65536\<rparr>) \<and>
   map_of (chunks (snd (save ((defaultSaveOptions [''f''] (Bytes (replicate 65537 7)))
          \<lparr>so_maxFileSizeBytes := 10\<rparr>) (newEngine []))))
     (''f'', (65537 + chunkSize - 1) div chunkSize) = None"
  by (simp add: model_defs upt_rec)

section \<open>Retraction of the tail\<close>

text \<open>
  C3, as amended. A content of any kind is saved at a path, and then a content that
  delivers the bytes \<open>b2\<close>: a string, a byte array, or a byte stream that hands out \<open>b2\<close> and
  closes. When \<open>b2\<close> is within the cap and, for a stream, its length is not a multiple of
  65536, then after the second save a scan of the chunks of the path yields the
  \<open>ceil(|b2| / 65536)\<close> chunk records of \<open>b2\<close> in order, and nothing else: every index
  beyond the last of them is absent, also an index where the first save had put a chunk.
\<close>

theorem retraction_leaves_no_tail:
  assumes "chunkIndicesOk s0"
    and "length (contentChunks (so_content options1)) < MAX_SAFE_INTEGER"
    and "save options1 s0 = (Returns (SavedFile f1), s1)"
    and "so_path options2 = so_path options1"
    and "delivers (so_content options2) b2"
    and "isStream (so_content options2) \<longrightarrow> length b2 mod chunkSize \<noteq> 0"
    and "length b2 \<le> so_maxFileSizeBytes options2"
    and "save options2 s1 = (Returns (SavedFile f2), s2)"
    and "length (toChunks b2) < i"
  shows "map fst (pagedListIterator (chunksPrefix s2 (pathToURIComponent (so_path options1))) None) =
           map (\<lambda>j. ((pathToURIComponent (so_path options1), j), toChunks b2 ! (j - 1)))
             [1..<Suc (length (toChunks b2))] \<and>
         map_of (chunks s2) (pathToURIComponent (so_path options1), i) = None \<and>
         (i \<le> writtenCount (so_maxFileSizeBytes options1) 0 (contentChunks (so_content options1)) \<longrightarrow>
            map_of (chunks s1) (pathToURIComponent (so_path options1), i) =
              Some (contentChunks (so_content options1) ! (i - 1)))"
proof -
  let ?uri = "pathToURIComponent (so_path options1)"
  have saved1: "savedAs options1 s0 f1 s1" using assms(3) by (rule save_success)
  have saved2: "savedAs options2 s1 f2 s2" using assms(8) by (rule save_success)
  have cs2: "contentChunks (so_content options2) = toChunks b2"
    using delivers_chunks [OF assms(5)] assms(6) by simp
  have ok1: "chunkIndicesOk s1"
    using savedAs_chunkIndicesOk [OF saved1 assms(1,2)] .
  have k2: "writtenCount (so_maxFileSizeBytes options2) 0 (toChunks b2) = length (toChunks b2)"
    using assms(7) by (rule writtenCount_payload)
  have "chunksPrefix s2 ?uri =
      map (\<lambda>j. ((?uri, j), toChunks b2 ! (j - 1))) [1..<Suc (length (toChunks b2))]"
    using savedAs_scan [OF saved2 ok1] cs2 k2 assms(4) by simp
  then have scan: "map fst (pagedListIterator (chunksPrefix s2 ?uri) None) =
      map (\<lambda>j. ((?uri, j), toChunks b2 ! (j - 1))) [1..<Suc (length (toChunks b2))]"
    unfolding chunksPrefix_paged .
  have gone: "map_of (chunks s2) (?uri, i) = None"
    using savedAs_chunks [OF saved2 ok1, of i] cs2 k2 assms(4,9) by simp
  have before: "i \<le> writtenCount (so_maxFileSizeBytes options1) 0 (contentChunks (so_content options1)) \<longrightarrow>
      map_of (chunks s1) (?uri, i) = Some (contentChunks (so_content options1) ! (i - 1))"
    using savedAs_chunks [OF saved1 assms(1), of i] assms(9) by simp
  show ?thesis using scan gone before by blast
qed

text \<open>
  Two instances: two bytes in a byte array saved over 65537 bytes, and a stream that hands
  out two bytes and then one saved over 65537 bytes.
\<close>

theorem retraction_leaves_no_tail_witness:
  "map fst (pagedListIterator (chunksPrefix
      (snd (save (defaultSaveOptions [''f''] (Bytes [1, 2]))
        (snd (save (defaultSaveOptions [''f''] (Bytes (replicate 65537 7))) (newEngine [])))))
      ''f'') None) = [((''f'', 1), [1, 2])] \<and>
   map_of (chunks (snd (save (defaultSaveOptions [''f''] (Bytes (replicate 65537 7))) (newEngine []))))
     (''f'', 2) = Some [7] \<and>
   map_of (chunks
      (snd (save (defaultSaveOptions [''f''] (Bytes [1, 2]))
        (snd (save (defaultSaveOptions [''f''] (Bytes (replicate 65537 7))) (newEngine []))))))
     (''f'', 2) = None \<and>
   map fst (pagedListIterator (chunksPrefix
      (snd (save (defaultSaveOptions [''f'']
              (Stream \<lparr>rs_blocks = [[1, 2], [3]], rs_failure = None, rs_bytes = True\<rparr>))
        (snd (save (defaultSaveOptions [''f''] (Bytes (replicate 65537 7))) (newEngine [])))))
      ''f'') None) = [((''f'', 1), [1, 2, 3])]"
proof -
  let ?o1 = "defaultSaveOptions [''f''] (Bytes (replicate 65537 7))"
  let ?o2 = "defaultSaveOptions [''f''] (Bytes [1, 2])"
  let ?strm = "\<lparr>rs_blocks = [[1, 2], [3 :: 8 word]], rs_failure = None, rs_bytes = True\<rparr>"
  let ?o3 = "defaultSaveOptions [''f''] (Stream ?strm)"
  let ?f1 = "\<lparr>f_path = [''f''], f_URIComponent = ''f'',
       f_metadata = Some ''{}'', f_flags = [], f_size = 65537\<rparr>"
  let ?f2 = "\<lparr>f_path = [''f''], f_URIComponent = ''f'',
       f_metadata = Some ''{}'', f_flags = [], f_size = 2\<rparr>"
  let ?f3 = "\<lparr>f_path = [''f''], f_URIComponent = ''f'',
       f_metadata = Some ''{}'', f_flags = [], f_size = 3\<rparr>"
  let ?s1 = "snd (save ?o1 (newEngine []))"
  have sv1: "fst (save ?o1 (newEngine [])) = Returns (SavedFile ?f1)"
    by (simp add: model_defs upt_rec)
  have sv2: "fst (save ?o2 ?s1) = Returns (SavedFile ?f2)"
    by (simp add: model_defs upt_rec)
  have sv3: "fst (save ?o3 ?s1) = Returns (SavedFile ?f3)"
    by (simp add: model_defs upt_rec)
  have c1: "contentChunks (Bytes (replicate 65537 7)) = [replicate 65536 7, [7]]"
    by (simp add: contentChunks_def toChunks_def chunkSize_def upt_rec)
  have n1: "length (contentChunks (so_content ?o1)) < MAX_SAFE_INTEGER"
    by (simp add: defaultSaveOptions_def c1 MAX_SAFE_INTEGER_def)
  have pl2: "delivers (so_content ?o2) [1, 2]"
    "isStream (so_content ?o2) \<longrightarrow> length [1, 2 :: 8 word] mod chunkSize \<noteq> 0"
    by (simp_all add: delivers_def isStream_def defaultSaveOptions_def)
  have pl3: "delivers (so_content ?o3) [1, 2, 3]"
    "isStream (so_content ?o3) \<longrightarrow> length [1, 2, 3 :: 8 word] mod chunkSize \<noteq> 0"
    by (simp_all add: delivers_def isStream_def defaultSaveOptions_def chunkSize_def)
  have cap: "length [1, 2 :: 8 word] \<le> so_maxFileSizeBytes ?o2"
    "length [1, 2, 3 :: 8 word] \<le> so_maxFileSizeBytes ?o3"
    by (simp_all add: defaultSaveOptions_def MAX_SAFE_INTEGER_def)
  have path: "so_path ?o2 = so_path ?o1" "so_path ?o3 = so_path ?o1"
    by (simp_all add: defaultSaveOptions_def)
  have uri: "pathToURIComponent [''f''] = ''f''"
    by (simp add: model_defs)
  have t2: "toChunks [1, 2 :: 8 word] = [[1, 2]]" "toChunks [1, 2, 3 :: 8 word] = [[1, 2, 3]]"
    by (simp_all add: toChunks_def chunkSize_def upt_rec)
  have i: "length (toChunks [1, 2 :: 8 word]) < 2" "length (toChunks [1, 2, 3 :: 8 word]) < 2"
    by (simp_all add: t2)
  show ?thesis
    using retraction_leaves_no_tail [OF chunkIndicesOk_newEngine n1 save_pair [OF sv1]
        path(1) pl2 cap(1) save_pair [OF sv2] i(1)]
      retraction_leaves_no_tail [OF chunkIndicesOk_newEngine n1 save_pair [OF sv1]
        path(2) pl3 cap(2) save_pair [OF sv3] i(2)]
    by (simp add: defaultSaveOptions_def MAX_SAFE_INTEGER_def uri c1 t2)
qed

text \<open>
  The retraction as the specification states it fails in two places. 65537 bytes saved
  under a cap of 10 bytes over 131073 bytes leave one chunk record, of the two the new
  payload has. And an empty byte stream saved over three bytes leaves a chunk record at
  index 1, beyond the last index of a payload without bytes, which is 0.
\<close>

theorem retraction_counterexample:
  "map fst (pagedListIterator (chunksPrefix
      (snd (save ((defaultSaveOptions [''f''] (Bytes (replicate 65537 7)))
                    \<lparr>so_maxFileSizeBytes := 10\<rparr>)
        (snd (save (defaultSaveOptions [''f''] (Bytes (replicate 131073 9))) (newEngine [])))))
      ''f'') None) = [((''f'', 1), replicate 65536 7)] \<and>
   length (toChunks (replicate 65537 (7 :: 8 word))) = 2 \<and>
   map fst (pagedListIterator (chunksPrefix
      (snd (save (defaultSaveOptions [''f'']
              (Stream \<lparr>rs_blocks = [], rs_failure = None, rs_bytes = True\<rparr>))
        (snd (save (defaultSaveOptions [''f''] (Bytes [1, 2, 3])) (newEngine [])))))
      ''f'') None) = [((''f'', 1), [])] \<and>
   length (toChunks ([] :: 8 word list)) = 0"
  by (simp add: model_defs upt_rec)

section \<open>The size cap\<close>

text \<open>
  C4. After a save has returned the file record, let \<open>k\<close> be the number of chunk records
  of the path. They are the first \<open>k\<close> chunks of the content, in order. Each of them was
  put when the bytes of the chunks before it were within the cap. If \<open>k\<close> is less than
  the number of chunks of the content, the bytes put exceed the cap: the chunk that
  crosses the cap is put, and the next one is not. The flag \<open>incomplete\<close> is set exactly
  in that case. The size of the record is the number of bytes put, and exceeds the cap
  by at most one chunk.
\<close>

theorem size_cap_checked_before_the_put:
  assumes "chunkIndicesOk s"
    and "save options s = (Returns (SavedFile f), s')"
    and "k = length (chunksPrefix s' (pathToURIComponent (so_path options)))"
    and "cs = contentChunks (so_content options)"
  shows "k \<le> length cs \<and>
         map snd (chunksPrefix s' (pathToURIComponent (so_path options))) = take k cs \<and>
         (i < k \<longrightarrow> length (concat (take i cs)) \<le> so_maxFileSizeBytes options) \<and>
         (k < length cs \<longrightarrow> so_maxFileSizeBytes options < f_size f) \<and>
         (''incomplete'' \<in> set (f_flags f) \<longleftrightarrow> k < length cs) \<and>
         f_size f = length (concat (take k cs)) \<and>
         f_size f \<le> so_maxFileSizeBytes options + chunkSize"
proof -
  let ?uri = "pathToURIComponent (so_path options)"
  let ?cap = "so_maxFileSizeBytes options"
  let ?w = "writtenCount ?cap 0 cs"
  have saved: "savedAs options s f s'" using assms(2) by (rule save_success)
  have scan: "chunksPrefix s' ?uri = map (\<lambda>i. ((?uri, i), cs ! (i - 1))) [1..<Suc ?w]"
    using savedAs_scan [OF saved assms(1)] assms(4) by simp
  have k: "k = ?w" using assms(3) scan by simp
  have le: "k \<le> length cs" unfolding k by (rule writtenCount_le)
  have vals: "map snd (chunksPrefix s' ?uri) = take k cs"
    unfolding scan k using scan_values [of ?w cs ?uri] writtenCount_le [of ?cap 0 cs] by simp
  have within: "i < k \<longrightarrow> length (concat (take i cs)) \<le> ?cap"
    using writtenCount_within [of i ?cap 0 cs] k by simp
  have size: "f_size f = length (concat (take k cs))"
    using saved assms(4) k by (simp add: savedAs_def)
  have stopped: "k < length cs \<longrightarrow> ?cap < f_size f"
    using writtenCount_stopped [of ?cap 0 cs] k size by simp
  have flag: "''incomplete'' \<in> set (f_flags f) \<longleftrightarrow> k < length cs"
    using saved assms(4) k by (simp add: savedAs_def)
  have bound: "f_size f \<le> ?cap + chunkSize"
  proof (cases k)
    case 0
    then show ?thesis using size by simp
  next
    case (Suc j)
    then have j: "j < length cs" using le by simp
    have "length (concat (take j cs)) \<le> ?cap"
      using writtenCount_within [of j ?cap 0 cs] k Suc by simp
    moreover have "length (cs ! j) \<le> chunkSize"
      using j assms(4) contentChunks_le [of "cs ! j" "so_content options"] by simp
    moreover have "take (Suc j) cs = take j cs @ [cs ! j]"
      using j by (rule take_Suc_conv_app_nth)
    ultimately show ?thesis using size Suc by simp
  qed
  show ?thesis using le vals within stopped flag size bound by blast
qed

text \<open>An instance: 65537 bytes under a cap of 10 bytes.\<close>

theorem size_cap_checked_before_the_put_witness:
  "fst (save ((defaultSaveOptions [''f''] (Bytes (replicate 65537 7)))
          \<lparr>so_maxFileSizeBytes := 10\<rparr>) (newEngine [])) =
     Returns (SavedFile \<lparr>f_path = [''f''], f_URIComponent = ''f'',
       f_metadata = Some ''{}'', f_flags = [''incomplete''], f_size = 65536\<rparr>) \<and>
   map snd (chunksPrefix (snd (save ((defaultSaveOptions [''f''] (Bytes (replicate 65537 7)))
          \<lparr>so_maxFileSizeBytes := 10\<rparr>) (newEngine []))) ''f'') = [replicate 65536 7] \<and>
   length (contentChunks (Bytes (replicate 65537 7))) = 2 \<and>
   (65536 :: nat) \<le> 10 + chunkSize"
proof -
  let ?o = "(defaultSaveOptions [''f''] (Bytes (replicate 65537 7)))\<lparr>so_maxFileSizeBytes := 10\<rparr>"
  let ?f = "\<lparr>f_path = [''f''], f_URIComponent = ''f'',
       f_metadata = Some ''{}'', f_flags = [''incomplete''], f_size = 65536\<rparr>"
  have sv: "fst (save ?o (newEngine [])) = Returns (SavedFile ?f)"
    by (simp add: model_defs upt_rec)
  have uri: "pathToURIComponent [''f''] = ''f''"
    by (simp add: model_defs)
  have c: "contentChunks (Bytes (replicate 65537 7)) = [replicate 65536 7, [7]]"
    by (simp add: contentChunks_def toChunks_def chunkSize_def upt_rec)
  have k: "length (chunksPrefix (snd (save ?o (newEngine []))) ''f'') = 1"
    by (simp add: model_defs upt_rec)
  show ?thesis
    using size_cap_checked_before_the_put [OF chunkIndicesOk_newEngine save_pair [OF sv] refl refl, of 0]
      sv k
    by (simp add: defaultSaveOptions_def uri c chunkSize_def)
qed

section \<open>A path in flight\<close>

lemma fileStatus_saving:
  assumes "wellFormedPath p" and "savingFiles s (pathToURIComponent p) = Some n"
  shows "fileStatus s (pathToURIComponent p) =
         Returns (Some \<lparr>fs_URIComponent = pathToURIComponent p,
                         fs_path = (if p = [] then [[]] else p),
                         fs_progress = Some n, fs_status = Saving, fs_msg = None\<rparr>)"
  using assms by (simp add: fileStatus_def fileIsSaving_def decode_path_encode)

lemma fileStatus_deleting:
  assumes "wellFormedPath p" and "savingFiles s (pathToURIComponent p) = None"
    and "deletingFiles s (pathToURIComponent p) = Some n"
  shows "fileStatus s (pathToURIComponent p) =
         Returns (Some \<lparr>fs_URIComponent = pathToURIComponent p,
                         fs_path = (if p = [] then [[]] else p),
                         fs_progress = Some n, fs_status = Deleting, fs_msg = None\<rparr>)"
  using assms by (simp add: fileStatus_def fileIsSaving_def fileIsDeleting_def decode_path_encode)

lemma busy_short_circuit:
  assumes "fileStatus s (pathToURIComponent p) = Returns (Some st)"
    and "so_path sopts = p" and "ro_path ropts = p"
  shows "save sopts s = (Returns (SaveStatus st), s)"
    and "read ropts s = (Returns (ReadStatus st), s)"
    and "delete ropts s = (Returns (Some st), s)"
  using assms by (simp_all add: save_def read_def delete_def)

text \<open>
  C6. While the path \<open>p\<close> is in the map of the files being saved, with progress \<open>n\<close>,
  \<open>save\<close>, \<open>read\<close> and \<open>delete\<close> of \<open>p\<close> return the status \<open>saving\<close> with the progress
  \<open>n\<close>, and the engine and the store are as they were: nothing is written, nothing is
  emitted. It is the same with the status \<open>deleting\<close> while \<open>p\<close> is in the map of the files
  being deleted (and not in the other one, which is looked at first).
\<close>

theorem in_flight_short_circuit:
  assumes "wellFormedPath p"
    and "so_path sopts = p" and "ro_path ropts = p"
    and "(kind = Saving \<and> savingFiles s (pathToURIComponent p) = Some n) \<or>
         (kind = Deleting \<and> savingFiles s (pathToURIComponent p) = None \<and>
          deletingFiles s (pathToURIComponent p) = Some n)"
    and "st = \<lparr>fs_URIComponent = pathToURIComponent p, fs_path = (if p = [] then [[]] else p),
               fs_progress = Some n, fs_status = kind, fs_msg = None\<rparr>"
  shows "save sopts s = (Returns (SaveStatus st), s) \<and>
         read ropts s = (Returns (ReadStatus st), s) \<and>
         delete ropts s = (Returns (Some st), s)"
proof -
  have "fileStatus s (pathToURIComponent p) = Returns (Some st)"
    using assms(4)
  proof
    assume "kind = Saving \<and> savingFiles s (pathToURIComponent p) = Some n"
    then show ?thesis using fileStatus_saving [OF assms(1)] assms(5) by simp
  next
    assume "kind = Deleting \<and> savingFiles s (pathToURIComponent p) = None \<and>
          deletingFiles s (pathToURIComponent p) = Some n"
    then show ?thesis using fileStatus_deleting [OF assms(1)] assms(5) by simp
  qed
  then show ?thesis
    using busy_short_circuit [OF _ assms(2,3)] by simp
qed

lemma wellFormedPath_f: "wellFormedPath [''f'']"
  by (simp add: wellFormedPath_def leadingOnes_def byte_of_def)

text \<open>
  An instance: the path \<open>f\<close> with a save started, and with a delete started, on a fresh
  engine.
\<close>

theorem in_flight_short_circuit_witness:
  "savingFiles (snd (startSaving (defaultSaveOptions [''f''] (Bytes [1])) (newEngine []))) ''f'' = Some (Num 0) \<and>
   save (defaultSaveOptions [''f''] (Str ''abc''))
        (snd (startSaving (defaultSaveOptions [''f''] (Bytes [1])) (newEngine []))) =
     (Returns (SaveStatus \<lparr>fs_URIComponent = ''f'', fs_path = [''f''], fs_progress = Some (Num 0),
                 fs_status = Saving, fs_msg = None\<rparr>),
      snd (startSaving (defaultSaveOptions [''f''] (Bytes [1])) (newEngine []))) \<and>
   read (defaultReadOptions [''f''])
        (snd (startSaving (defaultSaveOptions [''f''] (Bytes [1])) (newEngine []))) =
     (Returns (ReadStatus \<lparr>fs_URIComponent = ''f'', fs_path = [''f''], fs_progress = Some (Num 0),
                 fs_status = Saving, fs_msg = None\<rparr>),
      snd (startSaving (defaultSaveOptions [''f''] (Bytes [1])) (newEngine []))) \<and>
   delete (defaultReadOptions [''f''])
        (snd (startSaving (defaultSaveOptions [''f''] (Bytes [1])) (newEngine []))) =
     (Returns (Some \<lparr>fs_URIComponent = ''f'', fs_path = [''f''], fs_progress = Some (Num 0),
                 fs_status = Saving, fs_msg = None\<rparr>),
      snd (startSaving (defaultSaveOptions [''f''] (Bytes [1])) (newEngine []))) \<and>
   save (defaultSaveOptions [''f''] (Str ''abc''))
        (snd (startDeleting (defaultReadOptions [''f'']) (newEngine []))) =
     (Returns (SaveStatus \<lparr>fs_URIComponent = ''f'', fs_path = [''f''], fs_progress = Some (Num 0),
                 fs_status = Deleting, fs_msg = None\<rparr>),
      snd (startDeleting (defaultReadOptions [''f'']) (newEngine [])))"
proof -
  let ?s = "snd (startSaving (defaultSaveOptions [''f''] (Bytes [1])) (newEngine []))"
  have uri: "pathToURIComponent [''f''] = ''f''"
    by (simp add: model_defs)
  have busy: "savingFiles ?s ''f'' = Some (Num 0)"
    by (simp add: startSaving_def Let_def uri defaultSaveOptions_def incrementClientIdReq_def
        newEngine_def kvDo_def)
  let ?d = "snd (startDeleting (defaultReadOptions [''f'']) (newEngine []))"
  have gone: "savingFiles ?d ''f'' = None \<and> deletingFiles ?d ''f'' = Some (Num 0)"
    by (simp add: startDeleting_def Let_def uri defaultReadOptions_def incrementClientIdReq_def
        newEngine_def kvDo_def plainObject_def objectPrototypeNames_def)
  show ?thesis
    using in_flight_short_circuit [OF wellFormedPath_f, of "defaultSaveOptions [''f''] (Str ''abc'')"
        "defaultReadOptions [''f'']" Saving ?s "Num 0", OF _ _ _ refl]
      in_flight_short_circuit [OF wellFormedPath_f, of "defaultSaveOptions [''f''] (Str ''abc'')"
        "defaultReadOptions [''f'']" Deleting ?d "Num 0", OF _ _ _ refl] busy gone
    by (simp add: uri defaultSaveOptions_def defaultReadOptions_def)
qed

section \<open>The guards of save, read and delete\<close>




lemma save_admitted:
  assumes "fileStatus s (pathToURIComponent (so_path options)) = Returns None"
    and "\<not> metadataTooLarge options"
    and "so_validateAccess options (so_path options)"
    and "extensionAllowed options"
  shows "save options s = saveGuarded (pathToURIComponent (so_path options)) options s"
  using assms
  by (auto simp: save_def metadataTooLarge_def extensionAllowed_def Let_def split: option.splits)

text \<open>
  The counter of a client whose id is truthy, where \<open>getClientReqs\<close> reads a number: the
  increment adds one. When the name of the id is not the name of a member of
  \<open>Object.prototype\<close>, the decrement that follows gives back what \<open>getClientReqs\<close> read.
\<close>

lemma getClientReqs_increment:
  "truthy c \<Longrightarrow> getClientReqs s c = Num n \<Longrightarrow>
   getClientReqs (incrementClientIdReq c s) c = Num (Suc n)"
  by (auto simp: getClientReqs_def incrementClientIdReq_def Let_def
      split: option.splits jsValue.splits if_splits)

lemma clientsReqsMap_increment:
  "truthy c \<Longrightarrow> getClientReqs s c = Num n \<Longrightarrow>
   clientsReqsMap (incrementClientIdReq c s) = (clientsReqsMap s)(propertyKey c \<mapsto> Num (Suc n))"
  by (auto simp: getClientReqs_def incrementClientIdReq_def Let_def fun_eq_iff
      split: option.splits jsValue.splits if_splits)

lemma getClientReqs_inc_dec:
  assumes "plainObject (propertyKey c) = None" and "getClientReqs s c = Num n"
    and "clientsReqsMap t = clientsReqsMap (incrementClientIdReq c s)"
  shows "getClientReqs (decrementClientIdReq c t) c' = getClientReqs s c'"
proof (cases "truthy c")
  case False
  then show ?thesis
    using assms(3) by (simp add: decrementClientIdReq_def incrementClientIdReq_def getClientReqs_def)
next
  case True
  have m: "clientsReqsMap t = (clientsReqsMap s)(propertyKey c \<mapsto> Num (Suc n))"
    using assms(3) clientsReqsMap_increment [OF True assms(2)] by simp
  have here: "getClientReqs (decrementClientIdReq c t) c = Num n"
    using True m assms(1)
    by (simp add: decrementClientIdReq_def getClientReqs_def Let_def deleteProperty_def)
  show ?thesis
  proof (cases "propertyKey c' = propertyKey c")
    case same: True
    then have "getClientReqs (decrementClientIdReq c t) c' = getClientReqs (decrementClientIdReq c t) c"
      and "getClientReqs s c' = getClientReqs s c"
      by (simp_all add: getClientReqs_def)
    then show ?thesis using here assms(2) by simp
  next
    case other: False
    then show ?thesis
      using True m
      by (simp add: decrementClientIdReq_def getClientReqs_def Let_def deleteProperty_def)
  qed
qed

text \<open>A save and a delete that are started, and ended at once.\<close>

lemma kvFault_incrementClientIdReq: "kvFault (incrementClientIdReq c s) = kvFault s"
  by (simp add: incrementClientIdReq_def Let_def)

lemma startSaving_returns:
  assumes "kvFault s (KvSet (MarkerKey (pathToURIComponent (so_path options)))) = None"
  shows "startSaving options s = (Returns (), snd (startSaving options s))"
  using assms by (simp add: startSaving_def Let_def kvDo_def kvFault_incrementClientIdReq)

lemma endSaving_returns:
  assumes "kvFault s (KvDelete (MarkerKey (pathToURIComponent (so_path options)))) = None"
  shows "endSaving options True s = (Returns (), snd (endSaving options True s))"
  using assms by (simp add: endSaving_def Let_def kvDo_def)

lemma endSaving_unresolved_returns:
  "endSaving options False s = (Returns (), snd (endSaving options False s))"
  by (simp add: endSaving_def Let_def)

lemma endSaving_counter:
  assumes "endSaving options resolved s = (Returns u, s')"
  shows "\<exists>t. s' = decrementClientIdReq (so_clientId options) t \<and>
             clientsReqsMap t = clientsReqsMap s"
  using assms
  by (auto simp: endSaving_def Let_def split: outcome.splits if_splits)

lemma startDeleting_fields:
  assumes "startDeleting options s = (r, s1)"
  shows "chunks s1 = chunks s" "files s1 = files s" "savingFiles s1 = savingFiles s"
    "scheduledDeletes s1 = scheduledDeletes s" "progressLog s1 = progressLog s"
    "kvFault s1 = kvFault s"
    "deletingFiles s1 = (deletingFiles s)(pathToURIComponent (ro_path options) \<mapsto> Num 0)"
    "clientsReqsMap s1 = clientsReqsMap (incrementClientIdReq (ro_clientId options) s)"
  using assms
  by (auto simp: startDeleting_def Let_def incrementClientIdReq_def split: outcome.splits)

lemma endDeleting_fields:
  assumes "endDeleting options resolved s = (Returns u, s')"
  shows "chunks s' = chunks s" "files s' = files s" "savingFiles s' = savingFiles s"
    "scheduledDeletes s' = scheduledDeletes s" "progressLog s' = progressLog s"
    "kvFault s' = kvFault s"
    "deletingFiles s' = deleteProperty (pathToURIComponent (ro_path options)) (deletingFiles s)"
  using assms
  by (auto simp: endDeleting_def Let_def decrementClientIdReq_def split: outcome.splits if_splits)

lemma startDeleting_returns:
  assumes "kvFault s (KvSet (MarkerKey (pathToURIComponent (ro_path options)))) = None"
  shows "startDeleting options s = (Returns (), snd (startDeleting options s))"
  using assms by (simp add: startDeleting_def Let_def kvDo_def kvFault_incrementClientIdReq)

lemma endDeleting_returns:
  assumes "kvFault s (KvDelete (MarkerKey (pathToURIComponent (ro_path options)))) = None"
  shows "endDeleting options True s = (Returns (), snd (endDeleting options True s))"
  using assms by (simp add: endDeleting_def Let_def kvDo_def)

lemma endDeleting_unresolved_returns:
  "endDeleting options False s = (Returns (), snd (endDeleting options False s))"
  by (simp add: endDeleting_def Let_def)

lemma endDeleting_counter:
  assumes "endDeleting options resolved s = (Returns u, s')"
  shows "\<exists>t. s' = decrementClientIdReq (ro_clientId options) t \<and>
             clientsReqsMap t = clientsReqsMap s"
  using assms
  by (auto simp: endDeleting_def Let_def split: outcome.splits if_splits)

lemma deleteProperty_update: "deleteProperty k (m(k \<mapsto> v)) = deleteProperty k m"
  by (simp add: deleteProperty_def fun_eq_iff)

lemma deleteProperty_absent:
  "m k = None \<Longrightarrow> plainObject k = None \<Longrightarrow> deleteProperty k m = m"
  by (auto simp: deleteProperty_def fun_eq_iff)

lemma endSaving_startSaving:
  assumes st: "startSaving options s = (Returns (), s1)"
    and en: "endSaving options True s1 = (Returns (), s2)"
  shows "chunks s2 = chunks s" and "files s2 = files s"
    and "deletingFiles s2 = deletingFiles s" and "progressLog s2 = progressLog s"
    and "savingFiles s2 = deleteProperty (pathToURIComponent (so_path options)) (savingFiles s)"
    and "plainObject (propertyKey (so_clientId options)) = None \<Longrightarrow>
         getClientReqs s (so_clientId options) = Num n \<Longrightarrow> getClientReqs s2 c = getClientReqs s c"
proof -
  show "chunks s2 = chunks s" "files s2 = files s" "deletingFiles s2 = deletingFiles s"
    "progressLog s2 = progressLog s"
    "savingFiles s2 = deleteProperty (pathToURIComponent (so_path options)) (savingFiles s)"
    using startSaving_fields [OF st] endSaving_fields [OF en]
    by (simp_all add: deleteProperty_update)
  obtain t where t: "s2 = decrementClientIdReq (so_clientId options) t"
      "clientsReqsMap t = clientsReqsMap s1"
    using endSaving_counter [OF en] by blast
  then have m: "clientsReqsMap t = clientsReqsMap (incrementClientIdReq (so_clientId options) s)"
    using startSaving_fields(8) [OF st] by simp
  show "getClientReqs s2 c = getClientReqs s c"
    if "plainObject (propertyKey (so_clientId options)) = None"
      and "getClientReqs s (so_clientId options) = Num n"
    unfolding t(1) using that m by (rule getClientReqs_inc_dec)
qed

lemma endDeleting_startDeleting:
  assumes st: "startDeleting options s = (Returns (), s1)"
    and en: "endDeleting options True s1 = (Returns (), s2)"
  shows "chunks s2 = chunks s" and "files s2 = files s"
    and "savingFiles s2 = savingFiles s" and "progressLog s2 = progressLog s"
    and "deletingFiles s2 = deleteProperty (pathToURIComponent (ro_path options)) (deletingFiles s)"
    and "plainObject (propertyKey (ro_clientId options)) = None \<Longrightarrow>
         getClientReqs s (ro_clientId options) = Num n \<Longrightarrow> getClientReqs s2 c = getClientReqs s c"
proof -
  show "chunks s2 = chunks s" "files s2 = files s" "savingFiles s2 = savingFiles s"
    "progressLog s2 = progressLog s"
    "deletingFiles s2 = deleteProperty (pathToURIComponent (ro_path options)) (deletingFiles s)"
    using startDeleting_fields [OF st] endDeleting_fields [OF en]
    by (simp_all add: deleteProperty_update)
  obtain t where t: "s2 = decrementClientIdReq (ro_clientId options) t"
      "clientsReqsMap t = clientsReqsMap s1"
    using endDeleting_counter [OF en] by blast
  then have m: "clientsReqsMap t = clientsReqsMap (incrementClientIdReq (ro_clientId options) s)"
    using startDeleting_fields(8) [OF st] by simp
  show "getClientReqs s2 c = getClientReqs s c"
    if "plainObject (propertyKey (ro_clientId options)) = None"
      and "getClientReqs s (ro_clientId options) = Num n"
    unfolding t(1) using that m by (rule getClientReqs_inc_dec)
qed

text \<open>
  The branch of the cap. It is reached when the store answers \<open>#initKv\<close> and the \<open>set\<close>
  of the marker, and it returns when the store answers the \<open>delete\<close> of the marker; in
  \<open>save\<close> the three of them are outside the \<open>try\<close>.
\<close>

lemma saveGuarded_cap_breach:
  assumes "truthy (so_clientId options)" and "getClientReqs s (so_clientId options) = Num n"
    and "so_maxClientIdConcurrentReqs options \<le> n"
    and "kvFault s OpenKv = None"
    and "kvFault s (KvSet (MarkerKey (pathToURIComponent (so_path options)))) = None"
    and "kvFault s (KvDelete (MarkerKey (pathToURIComponent (so_path options)))) = None"
  shows "saveGuarded uri options s =
         (Returns (SaveStatus (errorStatus uri (so_path options)
                     (capMessage (so_maxClientIdConcurrentReqs options)))),
          onFileProgress (Some (errorStatus uri (so_path options)
                     (capMessage (so_maxClientIdConcurrentReqs options))))
            (snd (endSaving options True (snd (startSaving options s)))))"
proof -
  define s1 where "s1 = snd (startSaving options s)"
  have st: "startSaving options s = (Returns (), s1)"
    unfolding s1_def using assms(5) by (rule startSaving_returns)
  define s2 where "s2 = snd (endSaving options True s1)"
  have "getClientReqs s1 (so_clientId options) =
        getClientReqs (incrementClientIdReq (so_clientId options) s) (so_clientId options)"
    using startSaving_fields(8) [OF st] by (rule getClientReqs_cong)
  then have over: "exceeds (getClientReqs s1 (so_clientId options))
                     (so_maxClientIdConcurrentReqs options)"
    using getClientReqs_increment [OF assms(1,2)] assms(3) by simp
  have "kvFault s1 (KvDelete (MarkerKey (pathToURIComponent (so_path options)))) = None"
    using startSaving_fields(6) [OF st] assms(6) by simp
  then have en: "endSaving options True s1 = (Returns (), s2)"
    unfolding s2_def by (rule endSaving_returns)
  show ?thesis
    using assms(4) st over en
    by (simp add: saveGuarded_def initKv_def kvDo_def returnError_def Let_def)
qed

lemma deleteTry_cap_breach:
  assumes "truthy (ro_clientId options)" and "getClientReqs s (ro_clientId options) = Num n"
    and "ro_maxClientIdConcurrentReqs options \<le> n"
    and "kvFault s OpenKv = None"
    and "kvFault s (KvSet (MarkerKey (pathToURIComponent (ro_path options)))) = None"
    and "kvFault s (KvDelete (MarkerKey (pathToURIComponent (ro_path options)))) = None"
  shows "deleteTry uri options s =
         (Returns (Some (errorStatus uri (ro_path options)
                     (capMessage (ro_maxClientIdConcurrentReqs options)))),
          onFileProgress (Some (errorStatus uri (ro_path options)
                     (capMessage (ro_maxClientIdConcurrentReqs options))))
            (snd (endDeleting options True (snd (startDeleting options s)))))"
proof -
  define s1 where "s1 = snd (startDeleting options s)"
  have st: "startDeleting options s = (Returns (), s1)"
    unfolding s1_def using assms(5) by (rule startDeleting_returns)
  define s2 where "s2 = snd (endDeleting options True s1)"
  have "getClientReqs s1 (ro_clientId options) =
        getClientReqs (incrementClientIdReq (ro_clientId options) s) (ro_clientId options)"
    using startDeleting_fields(8) [OF st] by (rule getClientReqs_cong)
  then have over: "exceeds (getClientReqs s1 (ro_clientId options))
                     (ro_maxClientIdConcurrentReqs options)"
    using getClientReqs_increment [OF assms(1,2)] assms(3) by simp
  have "kvFault s1 (KvDelete (MarkerKey (pathToURIComponent (ro_path options)))) = None"
    using startDeleting_fields(6) [OF st] assms(6) by simp
  then have en: "endDeleting options True s1 = (Returns (), s2)"
    unfolding s2_def by (rule endDeleting_returns)
  show ?thesis
    using assms(4) st over en
    by (simp add: deleteTry_def initKv_def kvDo_def returnError_def Let_def)
qed

lemma delete_cap_breach:
  assumes "fileStatus s (pathToURIComponent (ro_path options)) = Returns None"
    and "ro_validateAccess options (ro_path options)"
    and "truthy (ro_clientId options)" and "getClientReqs s (ro_clientId options) = Num n"
    and "ro_maxClientIdConcurrentReqs options \<le> n"
    and "kvFault s OpenKv = None"
    and "kvFault s (KvSet (MarkerKey (pathToURIComponent (ro_path options)))) = None"
    and "kvFault s (KvDelete (MarkerKey (pathToURIComponent (ro_path options)))) = None"
  shows "delete options s =
         (Returns (Some (errorStatus (pathToURIComponent (ro_path options)) (ro_path options)
                     (capMessage (ro_maxClientIdConcurrentReqs options)))),
          onFileProgress (Some (errorStatus (pathToURIComponent (ro_path options)) (ro_path options)
                     (capMessage (ro_maxClientIdConcurrentReqs options))))
            (snd (endDeleting options True (snd (startDeleting options s)))))"
  using assms(1,2) deleteTry_cap_breach [OF assms(3-8)]
  by (simp add: delete_def Let_def)

lemma pull_cap_breach:
  assumes "\<not> cs_started strm"
    and "truthy (ro_clientId (cs_options strm))"
    and "getClientReqs s (ro_clientId (cs_options strm)) = Num n"
    and "ro_maxClientIdConcurrentReqs (cs_options strm) \<le> n"
  shows "pull strm s =
         ((None, strm\<lparr>cs_started := True,
                      cs_phase := Errored (Error (capMessage (ro_maxClientIdConcurrentReqs (cs_options strm))))\<rparr>),
          decrementClientIdReq (ro_clientId (cs_options strm))
            (incrementClientIdReq (ro_clientId (cs_options strm)) s))"
  using assms(1,4) getClientReqs_increment [OF assms(2,3)]
  by (simp add: pull_def Let_def pullFailed_def)

lemma decrement_increment:
  "plainObject (propertyKey c) = None \<Longrightarrow> getClientReqs s c = Num n \<Longrightarrow>
   getClientReqs (decrementClientIdReq c (incrementClientIdReq c s)) c' = getClientReqs s c'"
  "chunks (decrementClientIdReq c (incrementClientIdReq c s)) = chunks s"
  "files (decrementClientIdReq c (incrementClientIdReq c s)) = files s"
  "progressLog (decrementClientIdReq c (incrementClientIdReq c s)) = progressLog s"
proof -
  show "getClientReqs (decrementClientIdReq c (incrementClientIdReq c s)) c' = getClientReqs s c'"
    if "plainObject (propertyKey c) = None" and "getClientReqs s c = Num n"
    using that by (rule getClientReqs_inc_dec) simp
  show "chunks (decrementClientIdReq c (incrementClientIdReq c s)) = chunks s"
    "files (decrementClientIdReq c (incrementClientIdReq c s)) = files s"
    "progressLog (decrementClientIdReq c (incrementClientIdReq c s)) = progressLog s"
    by (simp_all add: decrementClientIdReq_def incrementClientIdReq_def Let_def)
qed

lemma readStream_errored:
  "cs_phase strm = Readable \<Longrightarrow> pull strm s = ((v, strm'), s') \<Longrightarrow> cs_phase strm' = Errored e \<Longrightarrow>
   readStream strm s = (Throws e, s')"
  by (simp add: readStream_def readStreamLoop.simps)
section \<open>The cap on the requests of a client\<close>

text \<open>
  Where the cap holds. The id of the client \<open>c\<close> is truthy and does not name a member of
  \<open>Object.prototype\<close>, nor does the URI component of the path; \<open>getClientReqs\<close> reads
  the number \<open>n\<close> for \<open>c\<close>, which is at least the cap \<open>m\<close> that \<open>c\<close> passes; and the store
  answers \<open>#initKv\<close> and the \<open>set\<close> and the \<open>delete\<close> of the marker of the path. Then the next
  save and the next delete of the idle path, once past the checks that come before,
  return and emit the error status of the cap; the next read stream fails at the first
  pull with the same message. The counter of \<open>c\<close> is incremented before the check and
  decremented again: afterwards the counter, the file records and the chunks are what
  they were.
\<close>

lemma cap_refuses:
  assumes "truthy c" and "getClientReqs s c = Num n" and "m \<le> n"
    and "plainObject (propertyKey c) = None"
    and "savingFiles s (pathToURIComponent p) = None"
    and "deletingFiles s (pathToURIComponent p) = None"
    and "plainObject (pathToURIComponent p) = None"
    and "kvFault s OpenKv = None"
    and "kvFault s (KvSet (MarkerKey (pathToURIComponent p))) = None"
    and "kvFault s (KvDelete (MarkerKey (pathToURIComponent p))) = None"
    and "so_path sopts = p" and "so_clientId sopts = c"
    and "so_maxClientIdConcurrentReqs sopts = m"
    and "\<not> metadataTooLarge sopts" and "so_validateAccess sopts p" and "extensionAllowed sopts"
    and "ro_path ropts = p" and "ro_clientId ropts = c"
    and "ro_maxClientIdConcurrentReqs ropts = m" and "ro_validateAccess ropts p"
    and "cs_options strm = ropts" and "\<not> cs_started strm" and "cs_phase strm = Readable"
    and "st = errorStatus (pathToURIComponent p) p (capMessage m)"
  shows "(case save sopts s of (r, s') \<Rightarrow>
            r = Returns (SaveStatus st) \<and> progressLog s' = progressLog s @ [Some st] \<and>
            getClientReqs s' c = getClientReqs s c \<and> chunks s' = chunks s \<and> files s' = files s \<and>
            savingFiles s' = savingFiles s) \<and>
         (case delete ropts s of (r, s') \<Rightarrow>
            r = Returns (Some st) \<and> progressLog s' = progressLog s @ [Some st] \<and>
            getClientReqs s' c = getClientReqs s c \<and> chunks s' = chunks s \<and> files s' = files s \<and>
            deletingFiles s' = deletingFiles s) \<and>
         (case pull strm s of ((v, strm'), s') \<Rightarrow>
            v = None \<and> cs_phase strm' = Errored (Error (capMessage m)) \<and>
            getClientReqs s' c = getClientReqs s c \<and> chunks s' = chunks s \<and> files s' = files s) \<and>
         fst (readStream strm s) = Throws (Error (capMessage m))"
proof -
  let ?uri = "pathToURIComponent p"
  have idle: "fileStatus s ?uri = Returns None"
    using assms(5,6) by (simp add: fileStatus_None)
  define a1 where "a1 = snd (startSaving sopts s)"
  define a2 where "a2 = snd (endSaving sopts True a1)"
  have st1: "startSaving sopts s = (Returns (), a1)"
    unfolding a1_def using assms(9,11) by (intro startSaving_returns) simp
  have "kvFault a1 (KvDelete (MarkerKey (pathToURIComponent (so_path sopts)))) = None"
    using startSaving_fields(6) [OF st1] assms(10,11) by simp
  then have en1: "endSaving sopts True a1 = (Returns (), a2)"
    unfolding a2_def by (rule endSaving_returns)
  have "save sopts s = saveGuarded ?uri sopts s"
    using save_admitted [of s sopts] idle assms(11,14,15,16) by simp
  then have sv: "save sopts s = (Returns (SaveStatus st), onFileProgress (Some st) a2)"
    using saveGuarded_cap_breach [of sopts s n ?uri] assms(1,2,3,8,9,10,11,12,13,24) st1 en1
    by simp
  have sv_state: "getClientReqs a2 c = getClientReqs s c" "chunks a2 = chunks s"
    "files a2 = files s" "savingFiles a2 = savingFiles s" "progressLog a2 = progressLog s"
    using endSaving_startSaving(1-5) [OF st1 en1] endSaving_startSaving(6) [OF st1 en1, of n c] assms(2,4,5,7,11,12)
    by (simp_all add: deleteProperty_absent)
  have save_part: "case save sopts s of (r, s') \<Rightarrow>
            r = Returns (SaveStatus st) \<and> progressLog s' = progressLog s @ [Some st] \<and>
            getClientReqs s' c = getClientReqs s c \<and> chunks s' = chunks s \<and> files s' = files s \<and>
            savingFiles s' = savingFiles s"
    unfolding sv using sv_state by (simp add: onFileProgress_def getClientReqs_def)
  define b1 where "b1 = snd (startDeleting ropts s)"
  define b2 where "b2 = snd (endDeleting ropts True b1)"
  have st2: "startDeleting ropts s = (Returns (), b1)"
    unfolding b1_def using assms(9,17) by (intro startDeleting_returns) simp
  have "kvFault b1 (KvDelete (MarkerKey (pathToURIComponent (ro_path ropts)))) = None"
    using startDeleting_fields(6) [OF st2] assms(10,17) by simp
  then have en2: "endDeleting ropts True b1 = (Returns (), b2)"
    unfolding b2_def by (rule endDeleting_returns)
  have dl: "delete ropts s = (Returns (Some st), onFileProgress (Some st) b2)"
    using delete_cap_breach [of s ropts n] idle assms(1,2,3,8,9,10,17,18,19,20,24) st2 en2
    by simp
  have dl_state: "getClientReqs b2 c = getClientReqs s c" "chunks b2 = chunks s"
    "files b2 = files s" "deletingFiles b2 = deletingFiles s" "progressLog b2 = progressLog s"
    using endDeleting_startDeleting(1-5) [OF st2 en2] endDeleting_startDeleting(6) [OF st2 en2, of n c] assms(2,4,6,7,17,18)
    by (simp_all add: deleteProperty_absent)
  have delete_part: "case delete ropts s of (r, s') \<Rightarrow>
            r = Returns (Some st) \<and> progressLog s' = progressLog s @ [Some st] \<and>
            getClientReqs s' c = getClientReqs s c \<and> chunks s' = chunks s \<and> files s' = files s \<and>
            deletingFiles s' = deletingFiles s"
    unfolding dl using dl_state by (simp add: onFileProgress_def getClientReqs_def)
  have pl: "pull strm s =
      ((None, strm\<lparr>cs_started := True, cs_phase := Errored (Error (capMessage m))\<rparr>),
       decrementClientIdReq c (incrementClientIdReq c s))"
    using pull_cap_breach [of strm s n] assms(1,2,3,18,19,21,22) by simp
  have pull_part: "case pull strm s of ((v, strm'), s') \<Rightarrow>
            v = None \<and> cs_phase strm' = Errored (Error (capMessage m)) \<and>
            getClientReqs s' c = getClientReqs s c \<and> chunks s' = chunks s \<and> files s' = files s"
    unfolding pl using decrement_increment(1) [OF assms(4,2), of c]
    by (simp add: decrement_increment(2,3))
  have "readStream strm s =
      (Throws (Error (capMessage m)), decrementClientIdReq c (incrementClientIdReq c s))"
    using assms(23) pl by (rule readStream_errored) simp
  then have drain_part: "fst (readStream strm s) = Throws (Error (capMessage m))"
    by simp
  show ?thesis using save_part delete_part pull_part drain_part by blast
qed

text \<open>
  C7. The cap is not enforced for a client whose id names a member of \<open>Object.prototype\<close>.
  The counters are the properties of a plain object (mod.ts 85), so under the id
  \<open>valueOf\<close> the first increment finds a function, which is truthy, and \<open>++\<close> makes it \<open>NaN\<close>
  (mod.ts 573-578). \<open>getClientReqs\<close> then reads 0 (mod.ts 105), and the next increment
  starts again from 0. On a fresh engine, with a cap of one request: while a first save
  of the client \<open>valueOf\<close> is in flight, its counter reads 0, and a second save and a
  delete of the same client are not refused: the save returns the file record and the
  delete goes through. For the client \<open>alice\<close> in the same place the counter reads 1 and the
  second save is refused with the error of the cap.
\<close>

theorem cap_misses_prototype_names:
  "truthy (StrClientId ''valueOf'') \<and>
   fst (startSaving ((defaultSaveOptions [''g''] (Bytes [1]))
          \<lparr>so_clientId := StrClientId ''valueOf'', so_maxClientIdConcurrentReqs := 1\<rparr>)
        (newEngine [])) = Returns () \<and>
   clientsReqsMap
     (snd (startSaving ((defaultSaveOptions [''g''] (Bytes [1]))
             \<lparr>so_clientId := StrClientId ''valueOf'', so_maxClientIdConcurrentReqs := 1\<rparr>)
           (newEngine []))) ''valueOf'' = Some NaN \<and>
   getClientReqs
     (snd (startSaving ((defaultSaveOptions [''g''] (Bytes [1]))
             \<lparr>so_clientId := StrClientId ''valueOf'', so_maxClientIdConcurrentReqs := 1\<rparr>)
           (newEngine []))) (StrClientId ''valueOf'') = Num 0 \<and>
   fst (save ((defaultSaveOptions [''f''] (Bytes [1, 2]))
               \<lparr>so_clientId := StrClientId ''valueOf'', so_maxClientIdConcurrentReqs := 1\<rparr>)
     (snd (startSaving ((defaultSaveOptions [''g''] (Bytes [1]))
             \<lparr>so_clientId := StrClientId ''valueOf'', so_maxClientIdConcurrentReqs := 1\<rparr>)
           (newEngine [])))) =
     Returns (SavedFile \<lparr>f_path = [''f''], f_URIComponent = ''f'',
       f_metadata = Some ''{}'', f_flags = [], f_size = 2\<rparr>) \<and>
   fst (delete ((defaultReadOptions [''f''])
               \<lparr>ro_clientId := StrClientId ''valueOf'', ro_maxClientIdConcurrentReqs := 1\<rparr>)
     (snd (startSaving ((defaultSaveOptions [''g''] (Bytes [1]))
             \<lparr>so_clientId := StrClientId ''valueOf'', so_maxClientIdConcurrentReqs := 1\<rparr>)
           (newEngine [])))) = Returns None \<and>
   getClientReqs
     (snd (startSaving ((defaultSaveOptions [''g''] (Bytes [1]))
             \<lparr>so_clientId := StrClientId ''alice'', so_maxClientIdConcurrentReqs := 1\<rparr>)
           (newEngine []))) (StrClientId ''alice'') = Num 1 \<and>
   fst (save ((defaultSaveOptions [''f''] (Bytes [1, 2]))
               \<lparr>so_clientId := StrClientId ''alice'', so_maxClientIdConcurrentReqs := 1\<rparr>)
     (snd (startSaving ((defaultSaveOptions [''g''] (Bytes [1]))
             \<lparr>so_clientId := StrClientId ''alice'', so_maxClientIdConcurrentReqs := 1\<rparr>)
           (newEngine [])))) =
     Returns (SaveStatus \<lparr>fs_URIComponent = ''f'', fs_path = [''f''], fs_progress = Some (Num 0),
       fs_status = ErrorStatus,
       fs_msg = Some ''You can only make a maximum of 1 concurrent requests.''\<rparr>)"
  by (simp add: model_defs upt_rec)
section \<open>The metadata of the stored records\<close>

lemma entries_iff: "(k, v) \<in> set (entries al) \<longleftrightarrow> map_of al k = Some v"
proof
  assume "(k, v) \<in> set (entries al)"
  then show "map_of al k = Some v" using entries_value [of "(k, v)" al] by simp
next
  assume v: "map_of al k = Some v"
  then have "k \<in> set (map fst (entries al))"
    unfolding entries_keys by auto
  then obtain w where w: "(k, w) \<in> set (entries al)" by auto
  then have "map_of al k = Some w" using entries_value [of "(k, w)" al] by simp
  then show "(k, v) \<in> set (entries al)" using v w by simp
qed

lemma metadataKept_iff:
  "metadataKept s \<longleftrightarrow> (\<forall>p f. map_of (files s) p = Some f \<longrightarrow> f_metadata f \<noteq> None)"
  unfolding metadataKept_def list_all_iff
  by (auto simp: entries_iff [symmetric])

lemma metadataKept_newEngine: "metadataKept (newEngine ticks)"
  by (simp add: metadataKept_def newEngine_def entries_def)

lemma metadataKept_setMetadata:
  assumes "metadataKept s" and "setMetadata p m s = (r, s')"
  shows "metadataKept s'"
  using assms
  by (auto simp: metadataKept_iff setMetadata_def update_conv'
      split: if_splits option.splits outcome.splits)

lemma getMetadata_absent:
  "metadataKept s \<Longrightarrow> getMetadata p s = None \<longleftrightarrow> map_of (files s) p = None"
  by (auto simp: metadataKept_iff getMetadata_def split: option.splits)

text \<open>
  C9. A save without the option \<open>metadata\<close> that returns the file record stores it with the
  empty object as its metadata, and \<open>getMetadata\<close> of the path returns the empty object.
  Every stored record having its metadata, which a save keeps so, \<open>getMetadata\<close> returns
  \<open>undefined\<close> at a path exactly when there is no record at the path.
\<close>

theorem metadata_defaults_to_empty_object:
  assumes "metadataKept s"
    and "save options s = (Returns (SavedFile f), s')"
  shows "(so_metadata options = None \<longrightarrow>
            f_metadata f = Some ''{}'' \<and> getMetadata (so_path options) s' = Some ''{}'') \<and>
         metadataKept s' \<and>
         (getMetadata p s' = None \<longleftrightarrow> map_of (files s') p = None)"
proof -
  have saved: "savedAs options s f s'" using assms(2) by (rule save_success)
  then have rec: "f_metadata f = Some (case so_metadata options of None \<Rightarrow> ''{}'' | Some m \<Rightarrow> m)"
    and fs: "map_of (files s') = (map_of (files s))(so_path options \<mapsto> f)"
    by (simp_all add: savedAs_def)
  have kept: "metadataKept s'"
    using assms(1) rec unfolding metadataKept_iff fs by auto
  have "getMetadata (so_path options) s' = f_metadata f"
    by (simp add: getMetadata_def fs)
  then show ?thesis
    using rec kept getMetadata_absent [OF kept, of p] by simp
qed

text \<open>An instance: a string saved at \<open>a/b.txt\<close> on a fresh engine.\<close>

theorem metadata_defaults_to_empty_object_witness:
  "so_metadata (defaultSaveOptions [''a'', ''b.txt''] (Str ''hello'')) = None \<and>
   getMetadata [''a'', ''b.txt'']
     (snd (save (defaultSaveOptions [''a'', ''b.txt''] (Str ''hello'')) (newEngine []))) = Some ''{}'' \<and>
   getMetadata [''a'', ''c.txt'']
     (snd (save (defaultSaveOptions [''a'', ''b.txt''] (Str ''hello'')) (newEngine []))) = None \<and>
   map_of (files (snd (save (defaultSaveOptions [''a'', ''b.txt''] (Str ''hello'')) (newEngine []))))
     [''a'', ''c.txt''] = None"
proof -
  let ?o = "defaultSaveOptions [''a'', ''b.txt''] (Str ''hello'')"
  let ?f = "\<lparr>f_path = [''a'', ''b.txt''], f_URIComponent = ''a/b.txt'',
       f_metadata = Some ''{}'', f_flags = [], f_size = 5\<rparr>"
  have sv: "fst (save ?o (newEngine [])) = Returns (SavedFile ?f)"
    by (simp add: model_defs)
  have none: "so_metadata ?o = None" "so_path ?o = [''a'', ''b.txt'']"
    by (simp_all add: defaultSaveOptions_def)
  have absent: "map_of (files (snd (save ?o (newEngine [])))) [''a'', ''c.txt''] = None"
    by (simp add: model_defs)
  show ?thesis
    using metadata_defaults_to_empty_object [OF metadataKept_newEngine save_pair [OF sv],
        of "[''a'', ''c.txt'']"] none absent
    by simp
qed

section \<open>Clients without an id\<close>

lemma falsy_not_counted:
  "\<not> truthy c \<Longrightarrow> incrementClientIdReq c s = s \<and> decrementClientIdReq c s = s"
  by (simp add: incrementClientIdReq_def decrementClientIdReq_def)

text \<open>
  C10. The counters are the properties of one object, and \<open>getClientReqs\<close> reads the
  property an id names whether the id is truthy or not. The number 0 names the property
  of the string \<open>0\<close>, an absent id the property of the string \<open>undefined\<close>. So while the
  client of id \<open>"0"\<close> has two saves in flight, \<open>getClientReqs(0)\<close> is 2, and a save with the
  id 0 and a cap of one request is refused with the error of the cap.
\<close>

theorem falsy_client_reads_a_counter:
  "\<not> truthy (NumClientId 0) \<and> truthy (StrClientId ''0'') \<and>
   getClientReqs
     (snd (startSaving ((defaultSaveOptions [''h''] (Bytes [1]))\<lparr>so_clientId := StrClientId ''0''\<rparr>)
       (snd (startSaving ((defaultSaveOptions [''g''] (Bytes [1]))\<lparr>so_clientId := StrClientId ''0''\<rparr>)
         (newEngine [])))))
     (NumClientId 0) = Num 2 \<and>
   fst (save ((defaultSaveOptions [''f''] (Bytes [1, 2]))
               \<lparr>so_clientId := NumClientId 0, so_maxClientIdConcurrentReqs := 1\<rparr>)
     (snd (startSaving ((defaultSaveOptions [''h''] (Bytes [1]))\<lparr>so_clientId := StrClientId ''0''\<rparr>)
       (snd (startSaving ((defaultSaveOptions [''g''] (Bytes [1]))\<lparr>so_clientId := StrClientId ''0''\<rparr>)
         (newEngine [])))))) =
     Returns (SaveStatus \<lparr>fs_URIComponent = ''f'', fs_path = [''f''], fs_progress = Some (Num 0),
       fs_status = ErrorStatus,
       fs_msg = Some ''You can only make a maximum of 1 concurrent requests.''\<rparr>) \<and>
   \<not> truthy NoClientId \<and> truthy (StrClientId ''undefined'') \<and>
   getClientReqs (incrementClientIdReq (StrClientId ''undefined'') (newEngine [])) NoClientId = Num 1"
  by (simp add: model_defs)

section \<open>What is returned and what is raised\<close>














end
